theory Spec2Isabelle
  imports Main "HOL-Library.Word"
begin

unbundle bit_operations_syntax

section \<open>Machine types\<close>

text \<open>
  The C types of \<^verbatim>\<open>repqlite.c\<close>: \<^verbatim>\<open>u16\<close> is \<^verbatim>\<open>unsigned short\<close>,
  \<^verbatim>\<open>u32\<close> and \<^verbatim>\<open>unsigned int\<close> are 32 bits wide, and arithmetic on them wraps.
  A C \<^verbatim>\<open>char\<close> buffer is a \<^typ>\<open>string\<close> (a list of 8-bit characters); a NUL
  terminated C string is the list of its characters before the terminator.
\<close>

type_synonym u16 = "16 word"
type_synonym u32 = "32 word"

section \<open>The delta codec: base-64 integers\<close>

definition zDigits :: string where
  "zDigits = ''0123456789ABCDEFGHIJKLMNOPQRSTUVWXYZ_abcdefghijklmnopqrstuvwxyz~''"

text \<open>
  The first loop of \<^verbatim>\<open>putInt\<close>: \<^verbatim>\<open>for (i = 0; v > 0; i++, v >>= 6) zBuf[i] = zDigits[v & 0x3f]\<close>.
  The result is the contents of \<^verbatim>\<open>zBuf[0..i)\<close>, least significant digit first.
\<close>

function putInt_zBuf :: "u32 \<Rightarrow> string" where
  "putInt_zBuf v =
     (if v = 0 then [] else zDigits ! unat (v AND 0x3f) # putInt_zBuf (drop_bit 6 v))"
  by pat_completeness auto
termination
proof (relation "measure unat")
  show "wf (measure unat)" by simp
next
  fix v :: u32
  assume "v \<noteq> 0"
  then have "0 < unat v" by (simp add: unat_gt_0)
  then show "(drop_bit 6 v, v) \<in> measure unat"
    by (simp add: drop_bit_eq_div unat_div)
qed

declare putInt_zBuf.simps [simp del]

text \<open>
  \<^verbatim>\<open>putInt (v, &zDelta)\<close> appends the returned characters to the delta: the single digit
  \<^verbatim>\<open>'0'\<close> for zero, otherwise \<^verbatim>\<open>zBuf\<close> read backwards.
\<close>

definition putInt :: "u32 \<Rightarrow> string" where
  "putInt v = (if v = 0 then ''0'' else rev (putInt_zBuf v))"

text \<open>
  \<^verbatim>\<open>for (i = 1, x = 64; (unsigned int) v >= x; i++, x <<= 6) {}\<close>. Both \<^verbatim>\<open>i\<close> and
  \<^verbatim>\<open>x\<close> are \<^verbatim>\<open>unsigned int\<close>, so \<^verbatim>\<open>x <<= 6\<close> wraps; the loop need not end, and
  \<open>None\<close> stands for a call that never returns.
\<close>

partial_function (option) digit_count_loop :: "u32 \<Rightarrow> u32 \<Rightarrow> u32 \<Rightarrow> u32 option" where
  [code]: "digit_count_loop v i x =
     (if x \<le> v then digit_count_loop v (i + 1) (push_bit 6 x) else Some i)"

text \<open>The argument is the bit pattern of the C \<^verbatim>\<open>int v\<close>, as the cast reads it.\<close>

definition digit_count :: "u32 \<Rightarrow> nat option" where
  "digit_count v = map_option unat (digit_count_loop v 1 64)"

text \<open>The number of base-64 digits of a natural number, for reference.\<close>

fun ndigits :: "nat \<Rightarrow> nat" where
  "ndigits n = (if n < 64 then 1 else Suc (ndigits (n div 64)))"

declare ndigits.simps [simp del]

section \<open>The delta codec: rolling hash and checksum\<close>

text \<open>
  \<^verbatim>\<open>struct hash { u16 a, b; u16 i; char z[NHASH]; }\<close> with \<^verbatim>\<open>NHASH = 16\<close>. The fields carry the
  prefix \<open>hash_\<close> here.
\<close>

record hash =
  hash_a :: u16
  hash_b :: u16
  hash_i :: u16
  hash_z :: string

text \<open>
  A plain \<^verbatim>\<open>char\<close> converted to \<^verbatim>\<open>u16\<close>. Whether plain \<^verbatim>\<open>char\<close> is signed is left to the
  C implementation, so the flag \<open>sc\<close> (true when it is signed, as on x86) is a parameter of
  the hash and of everything that calls it.
\<close>

definition char_u16 :: "bool \<Rightarrow> char \<Rightarrow> u16" where
  "char_u16 sc c = (if sc \<and> 128 \<le> (of_char c :: nat) then of_char c - 256 else of_char c)"

text \<open>
  \<^verbatim>\<open>hash_init\<close>: \<^verbatim>\<open>a += z[i]; b += (NHASH - i) * z[i]; pHash->z[i] = z[i]\<close> for \<open>i\<close> from 0 to 15.
  The caller passes a pointer to at least 16 readable bytes.
\<close>

definition hash_init :: "bool \<Rightarrow> string \<Rightarrow> hash" where
  "hash_init sc zs =
     (let (a, b) = fold (\<lambda>i (a, b). (a + char_u16 sc (zs ! i),
                                      b + (16 - of_nat i) * char_u16 sc (zs ! i)))
                        [0..<16] (0, 0)
      in \<lparr>hash_a = a AND 0xffff, hash_b = b AND 0xffff, hash_i = 0, hash_z = take 16 zs\<rparr>)"

definition hash_next :: "bool \<Rightarrow> hash \<Rightarrow> char \<Rightarrow> hash" where
  "hash_next sc h c =
     (let old = char_u16 sc (hash_z h ! unat (hash_i h));
          z' = (hash_z h)[unat (hash_i h) := c];
          i' = (hash_i h + 1) AND 15;
          a' = hash_a h - old + char_u16 sc c;
          b' = hash_b h - 16 * old + a'
      in \<lparr>hash_a = a', hash_b = b', hash_i = i', hash_z = z'\<rparr>)"

definition hash_32bit :: "hash \<Rightarrow> u32" where
  "hash_32bit h = ucast (hash_a h AND 0xffff) OR push_bit 16 (ucast (hash_b h AND 0xffff))"

text \<open>
  \<^verbatim>\<open>checksum\<close> reads the buffer through \<^verbatim>\<open>unsigned char\<close>. The first argument of each loop is
  what is left of the buffer (\<^verbatim>\<open>z\<close>, with \<^verbatim>\<open>N\<close> its length).
\<close>

definition uchar :: "char \<Rightarrow> u32" where
  "uchar c = of_char c"

function checksum_loop16 :: "string \<Rightarrow> u32 \<times> u32 \<times> u32 \<times> u32 \<Rightarrow> string \<times> u32 \<times> u32 \<times> u32 \<times> u32" where
  "checksum_loop16 z (sum0, sum1, sum2, sum3) =
     (if 16 \<le> length z then
        checksum_loop16 (drop 16 z)
          (sum0 + (uchar (z ! 0) + uchar (z ! 4) + uchar (z ! 8) + uchar (z ! 12)),
           sum1 + (uchar (z ! 1) + uchar (z ! 5) + uchar (z ! 9) + uchar (z ! 13)),
           sum2 + (uchar (z ! 2) + uchar (z ! 6) + uchar (z ! 10) + uchar (z ! 14)),
           sum3 + (uchar (z ! 3) + uchar (z ! 7) + uchar (z ! 11) + uchar (z ! 15)))
      else (z, sum0, sum1, sum2, sum3))"
  by pat_completeness auto
termination
  by (relation "measure (\<lambda>(z, s). length z)") auto

function checksum_loop4 :: "string \<Rightarrow> u32 \<times> u32 \<times> u32 \<times> u32 \<Rightarrow> string \<times> u32 \<times> u32 \<times> u32 \<times> u32" where
  "checksum_loop4 z (sum0, sum1, sum2, sum3) =
     (if 4 \<le> length z then
        checksum_loop4 (drop 4 z)
          (sum0 + uchar (z ! 0), sum1 + uchar (z ! 1), sum2 + uchar (z ! 2), sum3 + uchar (z ! 3))
      else (z, sum0, sum1, sum2, sum3))"
  by pat_completeness auto
termination
  by (relation "measure (\<lambda>(z, s). length z)") auto

text \<open>The \<^verbatim>\<open>switch (N)\<close> falls through from case 3 to case 1.\<close>

definition checksum :: "string \<Rightarrow> u32" where
  "checksum zIn =
     (let (z1, s) = checksum_loop16 zIn (0, 0, 0, 0);
          (z, sum0, sum1, sum2, sum3) = checksum_loop4 z1 s;
          sum3 = sum3 + (push_bit 8 sum2 + push_bit 16 sum1 + push_bit 24 sum0);
          sum3 = (if length z = 3 then sum3 + push_bit 8 (uchar (z ! 2)) else sum3);
          sum3 = (if length z = 3 \<or> length z = 2 then sum3 + push_bit 16 (uchar (z ! 1)) else sum3);
          sum3 = (if length z = 3 \<or> length z = 2 \<or> length z = 1
                  then sum3 + push_bit 24 (uchar (z ! 0)) else sum3)
      in sum3)"

section \<open>The delta codec: \<^verbatim>\<open>rbuDeltaCreate\<close>\<close>

text \<open>
  The buffers \<^verbatim>\<open>zSrc\<close> and \<^verbatim>\<open>zOut\<close> are strings and \<^verbatim>\<open>lenSrc\<close>, \<^verbatim>\<open>lenOut\<close> their lengths.
  Offsets and counts (\<^verbatim>\<open>base\<close>, \<^verbatim>\<open>i\<close>, \<^verbatim>\<open>iSrc\<close>, \<^verbatim>\<open>cnt\<close>, \<^verbatim>\<open>ofst\<close>, \<^verbatim>\<open>litsz\<close>) are natural
  numbers: with both lengths below \<open>2^31\<close>, which the caller's \<^verbatim>\<open>int nSrc\<close> and
  \<^verbatim>\<open>int nFinal\<close> guarantee, none of the C expressions on them leaves the range of its type.
  Where a value is handed to \<^verbatim>\<open>putInt\<close> or \<^verbatim>\<open>digit_count\<close> it is converted to 32 bits.
  The entries of \<^verbatim>\<open>landmark\<close> and \<^verbatim>\<open>collide\<close> are \<^verbatim>\<open>int\<close>, with \<open>-1\<close> for an empty slot.
  The variable \<^verbatim>\<open>lastRead\<close> is written and never read, and is left out.

  The loop that fills the hash table:
  \<^verbatim>\<open>for (i = 0; i < lenSrc - NHASH; i += NHASH)\<close>, entered only when \<^verbatim>\<open>lenSrc > NHASH\<close>.
\<close>

function build_index :: "bool \<Rightarrow> string \<Rightarrow> nat \<Rightarrow> nat \<Rightarrow> int list \<times> int list \<Rightarrow> int list \<times> int list" where
  "build_index sc zSrc nHash i (collide, landmark) =
     (if i < length zSrc - 16 then
        (let h = hash_init sc (drop i zSrc);
             hv = unat (hash_32bit h) mod nHash
         in build_index sc zSrc nHash (i + 16)
              (collide[i div 16 := landmark ! hv], landmark[hv := int (i div 16)]))
      else (collide, landmark))"
  by pat_completeness auto
termination
  by (relation "measure (\<lambda>(sc, zSrc, nHash, i, t). length zSrc - 16 - i)") auto

text \<open>
  The forward match
  \<^verbatim>\<open>for (j = 0, x = iSrc, y = base + i; x < lenSrc && y < lenOut; j++, x++, y++) if (zSrc[x] != zOut[y]) break;\<close>
  returns \<open>j\<close> as the loop leaves it, before the \<^verbatim>\<open>j--\<close> that follows.
\<close>

function match_fwd :: "string \<Rightarrow> string \<Rightarrow> nat \<Rightarrow> nat \<Rightarrow> nat \<Rightarrow> nat" where
  "match_fwd zSrc zOut x y j =
     (if x < length zSrc \<and> y < length zOut \<and> zSrc ! x = zOut ! y
      then match_fwd zSrc zOut (x + 1) (y + 1) (j + 1) else j)"
  by pat_completeness auto
termination
  by (relation "measure (\<lambda>(zSrc, zOut, x, y, j). length zSrc - x)") auto

text \<open>
  The backward match
  \<^verbatim>\<open>for (k = 1; k < iSrc && k <= i; k++) if (zSrc[iSrc - k] != zOut[base + i - k]) break;\<close>
  with \<open>y = base + i\<close>; again the value before the \<^verbatim>\<open>k--\<close>.
\<close>

function match_bwd :: "string \<Rightarrow> string \<Rightarrow> nat \<Rightarrow> nat \<Rightarrow> nat \<Rightarrow> nat \<Rightarrow> nat" where
  "match_bwd zSrc zOut iSrc y i k =
     (if k < iSrc \<and> k \<le> i \<and> zSrc ! (iSrc - k) = zOut ! (y - k)
      then match_bwd zSrc zOut iSrc y i (k + 1) else k)"
  by pat_completeness auto
termination
  by (relation "measure (\<lambda>(zSrc, zOut, iSrc, y, i, k). iSrc - k)") auto

declare match_fwd.simps [simp del] match_bwd.simps [simp del] build_index.simps [simp del]

text \<open>
  The body of the chain walk for one landmark block: the match around \<^verbatim>\<open>iSrc = iBlock * NHASH\<close>
  and its cost \<^verbatim>\<open>sz\<close>. Here \<open>j\<close> is one more than the C variable after \<^verbatim>\<open>j--\<close>, so
  \<^verbatim>\<open>cnt = j + k + 1\<close> reads \<open>j + k\<close>. The result is \<open>(cnt, ofst, litsz, sz)\<close>, or \<open>None\<close>
  when a call of \<^verbatim>\<open>digit_count\<close> does not return.
\<close>

definition candidate :: "string \<Rightarrow> string \<Rightarrow> nat \<Rightarrow> nat \<Rightarrow> nat \<Rightarrow> (nat \<times> nat \<times> nat \<times> nat) option" where
  "candidate zSrc zOut base i iBlock =
     (let iSrc = iBlock * 16;
          j = match_fwd zSrc zOut iSrc (base + i) 0;
          k = match_bwd zSrc zOut iSrc (base + i) i 1 - 1;
          ofst = iSrc - k;
          cnt = j + k;
          litsz = i - k
      in case digit_count (of_nat (i - k)) of None \<Rightarrow> None | Some d1 \<Rightarrow>
        (case digit_count (of_nat cnt) of None \<Rightarrow> None | Some d2 \<Rightarrow>
        (case digit_count (of_nat ofst) of None \<Rightarrow> None | Some d3 \<Rightarrow>
           Some (cnt, ofst, litsz, d1 + d2 + d3 + 3))))"

text \<open>
  \<^verbatim>\<open>if (cnt >= sz && cnt > bestCnt) { bestCnt = cnt; bestOfst = iSrc - k; bestLitsz = litsz; }\<close>
  on the triple \<open>(bestCnt, bestOfst, bestLitsz)\<close>.
\<close>

definition remember :: "nat \<times> nat \<times> nat \<times> nat \<Rightarrow> nat \<times> nat \<times> nat \<Rightarrow> nat \<times> nat \<times> nat" where
  "remember c best =
     (case c of (cnt, ofst, litsz, sz) \<Rightarrow>
        if sz \<le> cnt \<and> fst best < cnt then (cnt, ofst, litsz) else best)"

text \<open>
  \<^verbatim>\<open>while (iBlock >= 0 && (limit--) > 0) { ...; iBlock = collide[iBlock]; }\<close> with
  \<^verbatim>\<open>limit\<close> starting at 250.
\<close>

fun chain_walk :: "string \<Rightarrow> string \<Rightarrow> int list \<Rightarrow> nat \<Rightarrow> nat \<Rightarrow> nat \<Rightarrow> int
                   \<Rightarrow> nat \<times> nat \<times> nat \<Rightarrow> (nat \<times> nat \<times> nat) option" where
  "chain_walk zSrc zOut collide base i 0 iBlock best = Some best"
| "chain_walk zSrc zOut collide base i (Suc limit) iBlock best =
     (if 0 \<le> iBlock then
        (case candidate zSrc zOut base i (nat iBlock) of
           None \<Rightarrow> None
         | Some c \<Rightarrow> chain_walk zSrc zOut collide base i limit (collide ! nat iBlock) (remember c best))
      else Some best)"

text \<open>
  The inner \<^verbatim>\<open>while (1)\<close>: one hash window after another, until a copy command or the
  closing literal is written. The result is the new \<^verbatim>\<open>base\<close> and the text appended to
  \<^verbatim>\<open>zDelta\<close>.
\<close>

function scan :: "bool \<Rightarrow> string \<Rightarrow> string \<Rightarrow> nat \<Rightarrow> int list \<Rightarrow> int list \<Rightarrow> nat \<Rightarrow> nat \<Rightarrow> hash
                  \<Rightarrow> (nat \<times> string) option" where
  "scan sc zSrc zOut nHash collide landmark base i h =
     (let hv = unat (hash_32bit h) mod nHash;
          iBlock = landmark ! hv
      in case chain_walk zSrc zOut collide base i 250 iBlock (0, 0, 0) of
           None \<Rightarrow> None
         | Some (bestCnt, bestOfst, bestLitsz) \<Rightarrow>
             if 0 < bestCnt then
               Some (base + bestLitsz + bestCnt,
                     (if 0 < bestLitsz
                      then putInt (of_nat bestLitsz) @ '':'' @ take bestLitsz (drop base zOut)
                      else []) @
                     putInt (of_nat bestCnt) @ ''@'' @ putInt (of_nat bestOfst) @ '','')
             else if length zOut \<le> base + i + 16 then
               Some (length zOut,
                     putInt (of_nat (length zOut - base)) @ '':'' @ drop base zOut)
             else scan sc zSrc zOut nHash collide landmark base (i + 1)
                    (hash_next sc h (zOut ! (base + i + 16))))"
  by pat_completeness auto
termination
  by (relation "measure (\<lambda>(sc, zSrc, zOut, nHash, collide, landmark, base, i, h). length zOut - (base + i))") auto

declare scan.simps [simp del]

lemma scan_progress:
  "scan sc zSrc zOut nHash collide landmark base i h = Some (base', out) \<Longrightarrow> base < length zOut
   \<Longrightarrow> base < base'"
proof (induction sc zSrc zOut nHash collide landmark base i h rule: scan.induct)
  case (1 sc zSrc zOut nHash collide landmark base i h)
  show ?case using "1.prems" "1.IH"
    apply (subst (asm) scan.simps)
    apply (auto simp: Let_def split: option.splits prod.splits if_splits)
    done
qed

text \<open>The outer \<^verbatim>\<open>while (base + NHASH < lenOut)\<close>.\<close>

function encode_loop :: "bool \<Rightarrow> string \<Rightarrow> string \<Rightarrow> nat \<Rightarrow> int list \<Rightarrow> int list \<Rightarrow> nat \<Rightarrow> string
                  \<Rightarrow> (nat \<times> string) option" where
  "encode_loop sc zSrc zOut nHash collide landmark base zDelta =
     (if base + 16 < length zOut then
        (case scan sc zSrc zOut nHash collide landmark base 0 (hash_init sc (drop base zOut)) of
           None \<Rightarrow> None
         | Some (base', out) \<Rightarrow>
             encode_loop sc zSrc zOut nHash collide landmark base' (zDelta @ out))
      else Some (base, zDelta))"
  by pat_completeness auto
termination
proof (relation "measure (\<lambda>(sc, zSrc, zOut, nHash, collide, landmark, base, zDelta). length zOut - base)")
  show "wf (measure (\<lambda>(sc, zSrc, zOut, nHash, collide, landmark, base, zDelta). length zOut - base))"
    by simp
next
  fix sc zSrc zOut nHash collide landmark base and zDelta :: string and x2 base' out
  assume "base + 16 < length zOut"
    and "scan sc zSrc zOut nHash collide landmark base 0 (hash_init sc (drop base zOut)) = Some x2"
    and "(base', out) = x2"
  then have "base < base'" using scan_progress[of sc zSrc zOut nHash collide landmark base 0 _ base' out]
    by auto
  with \<open>base + 16 < length zOut\<close>
  show "((sc, zSrc, zOut, nHash, collide, landmark, base', zDelta @ out),
         (sc, zSrc, zOut, nHash, collide, landmark, base, zDelta))
        \<in> measure (\<lambda>(sc, zSrc, zOut, nHash, collide, landmark, base, zDelta). length zOut - base)"
    by simp
qed

declare encode_loop.simps [simp del]

text \<open>
  \<^verbatim>\<open>rbuDeltaCreate (zSrc, lenSrc, zOut, lenOut, zDelta)\<close>. The result is the text written to
  \<^verbatim>\<open>zDelta\<close>, whose length is the value the C function returns; \<open>None\<close> when the call does
  not return.
\<close>

definition rbuDeltaCreate :: "bool \<Rightarrow> string \<Rightarrow> string \<Rightarrow> string option" where
  "rbuDeltaCreate sc zSrc zOut =
     (let lenSrc = length zSrc;
          lenOut = length zOut;
          zDelta = putInt (of_nat lenOut) @ [CHR 0x0A]
      in if lenSrc \<le> 16 then
           Some (zDelta @ putInt (of_nat lenOut) @ '':'' @ zOut @ putInt (checksum zOut) @ '';'')
         else
           (let nHash = lenSrc div 16;
                (collide, landmark) =
                   build_index sc zSrc nHash 0 (replicate nHash (- 1), replicate nHash (- 1))
            in case encode_loop sc zSrc zOut nHash collide landmark 0 zDelta of
                 None \<Rightarrow> None
               | Some (base, zDelta) \<Rightarrow>
                   Some ((if base < lenOut
                          then zDelta @ putInt (of_nat (lenOut - base)) @ '':'' @ drop base zOut
                          else zDelta) @
                         putInt (checksum zOut) @ '';'')))"

section \<open>The identifier quoter \<^verbatim>\<open>safeId\<close>\<close>

definition azKeywords :: "string list" where
  "azKeywords =
    [''ABORT'', ''ACTION'', ''ADD'', ''AFTER'', ''ALL'', ''ALTER'', ''ANALYZE'', ''AND'', ''AS'',
     ''ASC'', ''ATTACH'', ''AUTOINCREMENT'', ''BEFORE'', ''BEGIN'', ''BETWEEN'', ''BY'',
     ''CASCADE'', ''CASE'', ''CAST'', ''CHECK'', ''COLLATE'', ''COLUMN'', ''COMMIT'',
     ''CONFLICT'', ''CONSTRAINT'', ''CREATE'', ''CROSS'', ''CURRENT_DATE'',
     ''CURRENT_TIME'', ''CURRENT_TIMESTAMP'', ''DATABASE'', ''DEFAULT'', ''DEFERRABLE'',
     ''DEFERRED'', ''DELETE'', ''DESC'', ''DETACH'', ''DISTINCT'', ''DROP'', ''EACH'',
     ''ELSE'', ''END'', ''ESCAPE'', ''EXCEPT'', ''EXCLUSIVE'', ''EXISTS'', ''EXPLAIN'',
     ''FAIL'', ''FOR'', ''FOREIGN'', ''FROM'', ''FULL'', ''GLOB'', ''GROUP'', ''HAVING'', ''IF'',
     ''IGNORE'', ''IMMEDIATE'', ''IN'', ''INDEX'', ''INDEXED'', ''INITIALLY'', ''INNER'',
     ''INSERT'', ''INSTEAD'', ''INTERSECT'', ''INTO'', ''IS'', ''ISNULL'', ''JOIN'', ''KEY'',
     ''LEFT'', ''LIKE'', ''LIMIT'', ''MATCH'', ''NATURAL'', ''NO'', ''NOT'', ''NOTNULL'',
     ''NULL'', ''OF'', ''OFFSET'', ''ON'', ''OR'', ''ORDER'', ''OUTER'', ''PLAN'', ''PRAGMA'',
     ''PRIMARY'', ''QUERY'', ''RAISE'', ''RECURSIVE'', ''REFERENCES'', ''REGEXP'',
     ''REINDEX'', ''RELEASE'', ''RENAME'', ''REPLACE'', ''RESTRICT'', ''RIGHT'',
     ''ROLLBACK'', ''ROW'', ''SAVEPOINT'', ''SELECT'', ''SET'', ''TABLE'', ''TEMP'',
     ''TEMPORARY'', ''THEN'', ''TO'', ''TRANSACTION'', ''TRIGGER'', ''UNION'', ''UNIQUE'',
     ''UPDATE'', ''USING'', ''VACUUM'', ''VALUES'', ''VIEW'', ''VIRTUAL'', ''WHEN'', ''WHERE'',
     ''WITH'', ''WITHOUT'']"

text \<open>
  The character classes of \<^verbatim>\<open><ctype.h>\<close> in the C locale (the program never calls
  \<^verbatim>\<open>setlocale\<close>): ASCII letters and digits only.
\<close>

definition isupper :: "char \<Rightarrow> bool" where
  "isupper c = (65 \<le> (of_char c :: nat) \<and> (of_char c :: nat) \<le> 90)"

definition islower :: "char \<Rightarrow> bool" where
  "islower c = (97 \<le> (of_char c :: nat) \<and> (of_char c :: nat) \<le> 122)"

definition isalpha :: "char \<Rightarrow> bool" where
  "isalpha c = (isupper c \<or> islower c)"

definition isdigit :: "char \<Rightarrow> bool" where
  "isdigit c = (48 \<le> (of_char c :: nat) \<and> (of_char c :: nat) \<le> 57)"

definition toupper :: "char \<Rightarrow> char" where
  "toupper c = (if islower c then char_of (of_char c - 32 :: nat) else c)"

text \<open>
  Two functions of the SQLite library that \<^verbatim>\<open>safeId\<close> calls. \<^verbatim>\<open>sqlite3_stricmp\<close> compares
  two strings byte by byte after folding ASCII upper case to lower case, and returns the
  difference of the first pair of folded bytes that differ (the terminating NUL counts as a
  byte). The conversion \<^verbatim>\<open>%w\<close> of \<^verbatim>\<open>sqlite3_mprintf\<close> copies its argument with every
  double-quote character doubled.
\<close>

definition UpperToLower :: "char \<Rightarrow> nat" where
  "UpperToLower c = (if isupper c then of_char c + 32 else of_char c)"

fun sqlite3_stricmp :: "string \<Rightarrow> string \<Rightarrow> int" where
  "sqlite3_stricmp [] [] = 0"
| "sqlite3_stricmp [] (x # zRight) = int (UpperToLower (CHR 0x00)) - int (UpperToLower x)"
| "sqlite3_stricmp (c # zLeft) [] = int (UpperToLower c) - int (UpperToLower (CHR 0x00))"
| "sqlite3_stricmp (c # zLeft) (x # zRight) =
     (if c = x then sqlite3_stricmp zLeft zRight
      else if int (UpperToLower c) - int (UpperToLower x) \<noteq> 0
           then int (UpperToLower c) - int (UpperToLower x)
      else sqlite3_stricmp zLeft zRight)"

definition fmt_w :: "string \<Rightarrow> string" where
  "fmt_w z = concat (map (\<lambda>c. if c = CHR 0x22 then [c, c] else [c]) z)"

text \<open>\<^verbatim>\<open>sqlite3_mprintf ("\"%w\"", zId)\<close>.\<close>

definition quoted_w :: "string \<Rightarrow> string" where
  "quoted_w zId = [CHR 0x22] @ fmt_w zId @ [CHR 0x22]"

text \<open>
  The first loop of \<^verbatim>\<open>safeId\<close>, over the characters from position \<open>i\<close> on, with the count
  \<open>x\<close> of digits seen so far: \<open>None\<close> when the loop returns the quoted name, otherwise
  the final \<open>x\<close>.
\<close>

fun safeId_scan :: "string \<Rightarrow> nat \<Rightarrow> nat \<Rightarrow> nat option" where
  "safeId_scan [] i x = Some x"
| "safeId_scan (c # cs) i x =
     (if \<not> isalpha c \<and> c \<noteq> CHR ''_'' then
        (if 0 < i \<and> isdigit c then safeId_scan cs (i + 1) (x + 1) else None)
      else safeId_scan cs (i + 1) x)"

text \<open>The binary search \<^verbatim>\<open>while (lwr <= upr)\<close>: true when a keyword compares equal.\<close>

function safeId_search :: "string \<Rightarrow> int \<Rightarrow> int \<Rightarrow> bool" where
  "safeId_search zId lwr upr =
     (if lwr \<le> upr then
        (let mid = (lwr + upr) div 2;
             c = sqlite3_stricmp (azKeywords ! nat mid) zId
         in if c = 0 then True
            else if c < 0 then safeId_search zId (mid + 1) upr
            else safeId_search zId lwr (mid - 1))
      else False)"
  by pat_completeness auto
termination
  by (relation "measure (\<lambda>(zId, lwr, upr). nat (upr - lwr + 1))") auto

declare safeId_search.simps [simp del]

definition safeId :: "string \<Rightarrow> string" where
  "safeId zId =
     (if zId = [] then [CHR 0x22, CHR 0x22]
      else case safeId_scan zId 0 0 of
             None \<Rightarrow> quoted_w zId
           | Some x \<Rightarrow>
               if x \<noteq> 0 then zId
               else if safeId_search zId 0 (int (length azKeywords) - 1) then quoted_w zId
               else zId)"

section \<open>Column names and the \<^verbatim>\<open>ALTER TABLE\<close> statements of \<^verbatim>\<open>diff_one_table\<close>\<close>

text \<open>
  The loop of \<^verbatim>\<open>columnNames\<close> that fills \<^verbatim>\<open>az[]\<close> from the rows of
  \<^verbatim>\<open>PRAGMA table_info\<close>, each row given as the column's name (column 1) and its position in
  the primary key (column 5):
  \<^verbatim>\<open>if (truePk && (iPKey = sqlite3_column_int (pStmt, 5)) > 0) az[iPKey - 1] = safeId (name);
  else az[naz++] = safeId (name);\<close>
  The array starts as \<^verbatim>\<open>nPK\<close> NULL pointers, here \<open>None\<close>.
\<close>

fun columnNames_fill :: "bool \<Rightarrow> (string \<times> int) list \<Rightarrow> string option list \<Rightarrow> string option list" where
  "columnNames_fill truePk [] az = az"
| "columnNames_fill truePk ((name, iPKey) # rows) az =
     (if truePk \<and> 0 < iPKey
      then columnNames_fill truePk rows (az[nat iPKey - 1 := Some (safeId name)])
      else columnNames_fill truePk rows (az @ [Some (safeId name)]))"

text \<open>
  \<^verbatim>\<open>for (n2 = n; az2[n2]; n2++) fprintf (out, "ALTER TABLE %s ADD COLUMN %s;\n", zId, safeId (az2[n2]));\<close>
  over the entries of \<^verbatim>\<open>az2\<close> from index \<open>n\<close> on.
\<close>

fun alter_add_columns :: "string \<Rightarrow> string option list \<Rightarrow> string" where
  "alter_add_columns zId [] = []"
| "alter_add_columns zId (None # az2) = []"
| "alter_add_columns zId (Some zCol # az2) =
     ''ALTER TABLE '' @ zId @ '' ADD COLUMN '' @ safeId zCol @ '';'' @ [CHR 0x0A] @
     alter_add_columns zId az2"

section \<open>Options and the pass driver\<close>

text \<open>
  \<^verbatim>\<open>struct GlobalVars\<close> without the database handle; \<^verbatim>\<open>nExt\<close> is the length of
  \<^verbatim>\<open>azExt\<close>. The singleton \<^verbatim>\<open>g\<close> has static storage, so every field starts as zero.
\<close>

record GlobalVars =
  zArgv0 :: string
  bSchemaPK :: int
  fDebug :: nat
  FSEvent :: u32
  verbose :: nat
  useTransaction :: int
  neverUseTransaction :: int
  azExt :: "string list"
  rbuTable :: int

definition g_initial :: GlobalVars where
  "g_initial = \<lparr>zArgv0 = [], bSchemaPK = 0, fDebug = 0, FSEvent = 0, verbose = 0,
                 useTransaction = 0, neverUseTransaction = 0, azExt = [], rbuTable = 0\<rparr>"

definition IN_MODIFY :: u32 where
  "IN_MODIFY = 0x2"

definition IN_CLOSE_WRITE :: u32 where
  "IN_CLOSE_WRITE = 0x8"

text \<open>
  How a run ends early: \<^verbatim>\<open>cmdlineError\<close> and \<^verbatim>\<open>runtimeError\<close> print a message and call
  \<^verbatim>\<open>exit (1)\<close>; \<^verbatim>\<open>--help\<close> returns 0 from \<^verbatim>\<open>main\<close>.
\<close>

datatype stop = Exit1 string | Exit0

text \<open>\<^verbatim>\<open>z++; if (z[0] == '-') z++;\<close> on an argument that starts with a dash.\<close>

definition option_name :: "string \<Rightarrow> string" where
  "option_name a = (let z = tl a in if z \<noteq> [] \<and> hd z = CHR ''-'' then tl z else z)"

text \<open>
  The option loop of \<^verbatim>\<open>main\<close> over \<^verbatim>\<open>argv[1..]\<close>. The library function \<^verbatim>\<open>strtol\<close> is a
  parameter.
\<close>

fun parse_args :: "(string \<Rightarrow> nat) \<Rightarrow> string list \<Rightarrow> GlobalVars \<Rightarrow> string option
                   \<Rightarrow> stop + GlobalVars \<times> string option" where
  "parse_args strtol [] g dbPath = Inr (g, dbPath)"
| "parse_args strtol (a # rest) g dbPath =
     (if a \<noteq> [] \<and> hd a = CHR ''-'' then
        (let z = option_name a
         in if z = ''event'' then
              (case rest of
                 [] \<Rightarrow> Inl (Exit1 (''missing argument to '' @ a))
               | v # rest' \<Rightarrow>
                   if v = ''modify'' then parse_args strtol rest' (g\<lparr>FSEvent := IN_MODIFY\<rparr>) dbPath
                   else if v = ''close_write'' then parse_args strtol rest' g dbPath
                   else Inl (Exit1 (''illegal argument '' @ a)))
            else if z = ''debug'' then
              (case rest of
                 [] \<Rightarrow> Inl (Exit1 (''missing argument to '' @ a))
               | v # rest' \<Rightarrow> parse_args strtol rest' (g\<lparr>fDebug := strtol v\<rparr>) dbPath)
            else if z = ''help'' then Inl Exit0
            else if z = ''lib'' \<or> z = ''L'' then
              (case rest of
                 [] \<Rightarrow> Inl (Exit1 (''missing argument to '' @ a))
               | v # rest' \<Rightarrow> parse_args strtol rest' (g\<lparr>azExt := azExt g @ [v]\<rparr>) dbPath)
            else if z = ''primarykey'' then parse_args strtol rest (g\<lparr>bSchemaPK := 1\<rparr>) dbPath
            else if z = ''rbu'' then parse_args strtol rest (g\<lparr>rbuTable := 1\<rparr>) dbPath
            else if z = ''transaction'' then parse_args strtol rest (g\<lparr>useTransaction := 1\<rparr>) dbPath
            else if z = ''verbose'' \<or> z = ''v'' then parse_args strtol rest (g\<lparr>verbose := 1\<rparr>) dbPath
            else Inl (Exit1 (''unknown option: '' @ a)))
      else if dbPath = None then parse_args strtol rest g (Some a)
      else Inl (Exit1 (''unknown argument: '' @ a)))"

text \<open>
  \<^verbatim>\<open>main\<close> up to the call \<^verbatim>\<open>_inotify_wait (dbPath)\<close>: the result is the state of \<^verbatim>\<open>g\<close> and
  the path every later pass runs with.
\<close>

definition main :: "(string \<Rightarrow> nat) \<Rightarrow> string list \<Rightarrow> stop + GlobalVars \<times> string" where
  "main strtol argv =
     (case argv of
        [] \<Rightarrow> Inl (Exit1 ''path to databases required'')
      | argv0 # args \<Rightarrow>
          (case parse_args strtol args (g_initial\<lparr>zArgv0 := argv0, FSEvent := IN_CLOSE_WRITE\<rparr>) None of
             Inl e \<Rightarrow> Inl e
           | Inr (g, None) \<Rightarrow> Inl (Exit1 ''path to databases required'')
           | Inr (g, Some dbPath) \<Rightarrow> Inr (g, dbPath)))"

text \<open>
  What one call of \<^verbatim>\<open>sqlDiff\<close> meets outside the program: whether the SQLite calls succeed,
  the contents of the patch file \<^verbatim>\<open>zLog\<close> before the pass (it is opened for appending, and
  \<^verbatim>\<open>ftell\<close> after a write is the length of the file), the string \<^verbatim>\<open>timestamp ()\<close> returns and
  the table names the \<^verbatim>\<open>sqlite_master\<close> query yields.
\<close>

record pass_env =
  open_ok :: bool
  main_readable :: bool
  ext_ok :: "string \<Rightarrow> bool"
  attach_ok :: bool
  aux_readable :: bool
  log_before :: string
  time_stamp :: string
  table_names :: "string list"

text \<open>
  \<^verbatim>\<open>while (SQLITE_ROW == sqlite3_step (pStmt)) xDiff (name, out);\<close> where \<open>xDiff zTab\<close> is the
  text the table's emitter appends to \<^verbatim>\<open>out\<close>, or the \<^verbatim>\<open>runtimeError\<close> it ends with.
\<close>

fun run_tables :: "(string \<Rightarrow> stop + string) \<Rightarrow> string list \<Rightarrow> string \<Rightarrow> stop + string" where
  "run_tables xDiff [] out = Inr out"
| "run_tables xDiff (zTab # rest) out =
     (case xDiff zTab of Inl e \<Rightarrow> Inl e | Inr emitted \<Rightarrow> run_tables xDiff rest (out @ emitted))"

text \<open>
  \<^verbatim>\<open>sqlDiff\<close>, with the two table emitters as parameters. The result is the new \<^verbatim>\<open>g\<close>
  (\<^verbatim>\<open>rbudiff_one_table\<close> sets \<^verbatim>\<open>g.bSchemaPK\<close>), the patch file after the pass and the
  returned \<^verbatim>\<open>long\<close>.
\<close>

definition sqlDiff :: "GlobalVars \<Rightarrow> pass_env \<Rightarrow> (string \<Rightarrow> stop + string) \<Rightarrow> (string \<Rightarrow> stop + string)
                       \<Rightarrow> stop + GlobalVars \<times> string \<times> int" where
  "sqlDiff g env diff_one_table rbudiff_one_table =
     (let xDiff = (if rbuTable g \<noteq> 0 then rbudiff_one_table else diff_one_table)
      in if \<not> open_ok env then Inl (Exit1 ''cannot open database file'')
         else if \<not> main_readable env then Inl (Exit1 ''does not appear to be a valid SQLite database'')
         else if \<not> list_all (ext_ok env) (azExt g) then Inl (Exit1 ''error loading'')
         else if \<not> attach_ok env then Inl (Exit1 ''cannot attach database'')
         else if \<not> aux_readable env then Inl (Exit1 ''does not appear to be a valid SQLite database'')
         else
           (let out1 = log_before env @ ''-- '' @ time_stamp env @ [CHR 0x0A];
                fstart = int (length out1);
                g1 = (if neverUseTransaction g \<noteq> 0 then g\<lparr>useTransaction := 0\<rparr> else g);
                out2 = (if useTransaction g1 \<noteq> 0
                        then out1 @ ''BEGIN TRANSACTION;'' @ [CHR 0x0A] else out1)
            in case run_tables xDiff (table_names env) out2 of
                 Inl e \<Rightarrow> Inl e
               | Inr out3 \<Rightarrow>
                   (let g2 = (if rbuTable g \<noteq> 0 \<and> table_names env \<noteq> []
                              then g1\<lparr>bSchemaPK := 1\<rparr> else g1);
                        out4 = (if useTransaction g2 \<noteq> 0
                                then out3 @ ''COMMIT;'' @ [CHR 0x0A] else out3);
                        fend = int (length out4)
                    in Inr (g2, out4, if fend - fstart = 0 then - 1 else fstart))))"

section \<open>The patch replayer\<close>

text \<open>
  The C library's \<^verbatim>\<open>fgets (buf, num, in)\<close> on the unread rest \<open>inp\<close> of the file: \<open>None\<close> at
  end of file, otherwise the characters stored (up to and including the first newline, at
  most \<open>num - 1\<close> of them) and what is left unread.
\<close>

definition fgets :: "nat \<Rightarrow> string \<Rightarrow> (string \<times> string) option" where
  "fgets num inp =
     (if inp = [] then None
      else (let line = takeWhile (\<lambda>c. c \<noteq> CHR 0x0A) inp;
                n = min (num - 1) (if length line < length inp then length line + 1 else length line)
            in Some (take n inp, drop n inp)))"

text \<open>
  The \<^verbatim>\<open>while (1)\<close> of \<^verbatim>\<open>local_getline\<close>. \<open>zLine\<close> holds the \<open>n\<close> characters kept so far. The
  scan \<^verbatim>\<open>while (zLine[n])\<close> stops at a NUL byte, so only the part of the chunk before its first
  NUL is kept. The result is the line (\<open>None\<close> for the NULL pointer returned at end of file)
  and the unread rest of the file. The loop is not known to end for every state, so it is a
  partial function; \<^verbatim>\<open>malloc\<close> is taken to succeed.
\<close>

partial_function (option) local_getline_loop :: "string \<Rightarrow> nat \<Rightarrow> bool \<Rightarrow> string \<Rightarrow> (string option \<times> string) option" where
  "local_getline_loop zLine nLine inQuote inp =
     (let n = length zLine;
          nLine = (if nLine < n + 100 then nLine * 2 + 100 else nLine)
      in case fgets (nLine - n) inp of
           None \<Rightarrow> if n = 0 then Some (None, inp) else Some (Some zLine, inp)
         | Some (chunk, rest) \<Rightarrow>
             (let seen = takeWhile (\<lambda>c. c \<noteq> CHR 0x00) chunk;
                  inQuote = foldl (\<lambda>q c. if c = CHR 0x22 then \<not> q else q) inQuote seen;
                  zLine = zLine @ seen
              in if zLine \<noteq> [] \<and> last zLine = CHR 0x0A \<and> \<not> inQuote then
                   (let zLine = butlast zLine;
                        zLine = (if zLine \<noteq> [] \<and> last zLine = CHR 0x0D then butlast zLine else zLine)
                    in Some (Some zLine, rest))
                 else local_getline_loop zLine nLine inQuote rest))"

definition local_getline :: "string \<Rightarrow> (string option \<times> string) option" where
  "local_getline inp = local_getline_loop [] 100 False inp"

text \<open>
  \<^verbatim>\<open>sqlite3_exec (db, line, 0, 0, &zErrMsg)\<close> is the parameter \<open>exec\<close>: from the database and
  the statement (\<open>None\<close> for a NULL pointer) to the error message, \<open>None\<close> for
  \<^verbatim>\<open>SQLITE_OK\<close>, and the database afterwards. A failure prints one line on \<^verbatim>\<open>stderr\<close>.
\<close>

definition diagnostic :: "string option \<Rightarrow> string list" where
  "diagnostic r = (case r of None \<Rightarrow> [] | Some zErrMsg \<Rightarrow> [''sqlite3_exec: '' @ zErrMsg @ [CHR 0x0A]])"

text \<open>
  \<^verbatim>\<open>do { line = local_getline (fd); if (sqlite3_exec (...) != SQLITE_OK) {...} free (line); } while (line != NULL);\<close>
  with the lines written to \<^verbatim>\<open>stderr\<close> so far in \<open>err\<close>.
\<close>

partial_function (option) sqlPatch_loop ::
  "('db \<Rightarrow> string option \<Rightarrow> string option \<times> 'db) \<Rightarrow> 'db \<Rightarrow> string \<Rightarrow> string list \<Rightarrow> ('db \<times> string list) option" where
  "sqlPatch_loop exec db inp err =
     (case local_getline inp of
        None \<Rightarrow> None
      | Some (line, rest) \<Rightarrow>
          (case exec db line of (r, db') \<Rightarrow>
             if line \<noteq> None then sqlPatch_loop exec db' rest (err @ diagnostic r)
             else Some (db', err @ diagnostic r)))"

text \<open>
  \<^verbatim>\<open>sqlPatch\<close>. \<open>sqlFile\<close> is the contents of the patch file, \<open>None\<close> when \<^verbatim>\<open>fopen\<close> fails;
  \<^verbatim>\<open>perror ("fopen")\<close> then prints \<^verbatim>\<open>fopen: \<close> and the text \<open>strerror_z\<close> of \<^verbatim>\<open>errno\<close>.
  \<open>rc\<close> and \<open>db\<close> are what \<^verbatim>\<open>sqlite3_open\<close> gives; when \<open>rc\<close> is not \<^verbatim>\<open>SQLITE_OK\<close> the
  code prints \<^verbatim>\<open>sqlite3_open: \<close> and \<^verbatim>\<open>sqlite3_errstr (rc)\<close> and returns \<open>rc\<close>. After a failed
  \<^verbatim>\<open>fopen\<close> and a successful \<^verbatim>\<open>sqlite3_open\<close> the code goes on to \<^verbatim>\<open>fseek\<close> on a NULL
  stream; that run has no result here. The result is the value returned, the database and
  the lines written to \<^verbatim>\<open>stderr\<close>.
\<close>

definition sqlPatch ::
  "('db \<Rightarrow> string option \<Rightarrow> string option \<times> 'db) \<Rightarrow> (int \<Rightarrow> string) \<Rightarrow> string
   \<Rightarrow> string option \<Rightarrow> int \<Rightarrow> 'db \<Rightarrow> nat
   \<Rightarrow> (int \<times> 'db \<times> string list) option" where
  "sqlPatch exec sqlite3_errstr strerror_z sqlFile rc db sqlPos =
     (let err = (case sqlFile of
                   None \<Rightarrow> [''fopen: '' @ strerror_z @ [CHR 0x0A]]
                 | Some content \<Rightarrow> [])
      in if rc \<noteq> 0 then Some (rc, db, err @ [''sqlite3_open: '' @ sqlite3_errstr rc @ [CHR 0x0A]])
         else case sqlFile of
                None \<Rightarrow> None
              | Some content \<Rightarrow>
                  (case sqlPatch_loop exec db (drop sqlPos content) [] of
                     None \<Rightarrow> None
                   | Some (db', err) \<Rightarrow> Some (0, db', err)))"

text \<open>
  For the statement of the replay property: the lines \<^verbatim>\<open>local_getline\<close> yields one after the
  other, ending with the NULL pointer (at most \<open>k\<close> of them), and the effect of executing a
  list of statements in order, failing or not.
\<close>

fun patch_lines :: "nat \<Rightarrow> string \<Rightarrow> string option list" where
  "patch_lines 0 inp = []"
| "patch_lines (Suc k) inp =
     (case local_getline inp of
        Some (Some line, rest) \<Rightarrow> Some line # patch_lines k rest
      | _ \<Rightarrow> [None])"

fun replay :: "('db \<Rightarrow> string option \<Rightarrow> string option \<times> 'db) \<Rightarrow> 'db \<Rightarrow> string option list \<Rightarrow> 'db \<times> string list" where
  "replay exec db [] = (db, [])"
| "replay exec db (line # rest) =
     (case exec db line of (r, db') \<Rightarrow>
        (case replay exec db' rest of (db'', err) \<Rightarrow> (db'', diagnostic r @ err)))"

section \<open>The RBU emitter \<^verbatim>\<open>rbudiff_one_table\<close>\<close>

text \<open>
  A value of a result column, by its \<^verbatim>\<open>sqlite3_column_type\<close>. An integer is the 64-bit
  value it denotes, text and BLOBs are their bytes; the payload of a floating-point value
  is left abstract.
\<close>

datatype 'r sqlite3_value =
  SQLITE_INTEGER int | SQLITE_FLOAT 'r | SQLITE_TEXT string | SQLITE_BLOB string | SQLITE_NULL

text \<open>
  \<^verbatim>\<open>sqlite3_column_value (pStmt, i)\<close>: a column outside the result row reads as NULL.
\<close>

definition column :: "'r sqlite3_value list \<Rightarrow> nat \<Rightarrow> 'r sqlite3_value" where
  "column row i = (if i < length row then row ! i else SQLITE_NULL)"

text \<open>
  The conversions \<^verbatim>\<open>%02x\<close> of a byte and \<^verbatim>\<open>%lld\<close> of an integer.
\<close>

definition fmt_02x :: "char \<Rightarrow> string" where
  "fmt_02x c = [''0123456789abcdef'' ! (of_char c div 16), ''0123456789abcdef'' ! (of_char c mod 16)]"

fun fmt_u :: "nat \<Rightarrow> string" where
  "fmt_u n = (if n < 10 then [''0123456789'' ! n] else fmt_u (n div 10) @ [''0123456789'' ! (n mod 10)])"

declare fmt_u.simps [simp del]

definition fmt_lld :: "int \<Rightarrow> string" where
  "fmt_lld v = (if v < 0 then CHR ''-'' # fmt_u (nat (- v)) else fmt_u (nat v))"

text \<open>
  The loop of \<^verbatim>\<open>printQuoted\<close> over a text value: the text is printed up to its NUL
  terminator, and every single quote is printed twice.
\<close>

fun quote_text :: "string \<Rightarrow> string" where
  "quote_text [] = []"
| "quote_text (c # zArg) =
     (if c = CHR 0x00 then []
      else if c = CHR 0x27 then c # c # quote_text zArg
      else c # quote_text zArg)"

text \<open>
  \<^verbatim>\<open>printQuoted\<close>. The argument \<^verbatim>\<open>fmt_g\<close> stands for \<^verbatim>\<open>sqlite3_snprintf\<close> with
  \<^verbatim>\<open>%!.15g\<close>. \<^verbatim>\<open>sqlite3_value_blob\<close> returns a null pointer for a BLOB of length
  zero, which is printed as \<^verbatim>\<open>NULL\<close>.
\<close>

definition printQuoted :: "('r \<Rightarrow> string) \<Rightarrow> 'r sqlite3_value \<Rightarrow> string" where
  "printQuoted fmt_g X =
     (case X of
        SQLITE_FLOAT r1 \<Rightarrow> fmt_g r1
      | SQLITE_INTEGER v \<Rightarrow> fmt_lld v
      | SQLITE_BLOB zBlob \<Rightarrow>
          if zBlob \<noteq> [] then ''x'' @ [CHR 0x27] @ concat (map fmt_02x zBlob) @ [CHR 0x27]
          else ''NULL''
      | SQLITE_TEXT zArg \<Rightarrow> [CHR 0x27] @ quote_text zArg @ [CHR 0x27]
      | SQLITE_NULL \<Rightarrow> ''NULL'')"

text \<open>
  The rows of the third \<^verbatim>\<open>SELECT\<close> that \<^verbatim>\<open>getRbudiffQuery\<close> builds (updated rows), for
  one row \<^verbatim>\<open>n\<close> of \<^verbatim>\<open>aux\<close> and the row \<^verbatim>\<open>o\<close> of \<^verbatim>\<open>main\<close> with the same key, both
  in the order of \<^verbatim>\<open>azCol\<close> (key columns first). SQLite's operator \<^verbatim>\<open>IS\<close> is the
  parameter \<^verbatim>\<open>is_op\<close>. The result columns are: the \<^verbatim>\<open>nPK\<close> key columns of \<^verbatim>\<open>n\<close>;
  for every other column \<^verbatim>\<open>CASE WHEN n.c IS o.c THEN NULL ELSE n.c END\<close>; the text
  \<^verbatim>\<open>ota_control\<close>, which is one \<^verbatim>\<open>.\<close> per key column when \<^verbatim>\<open>bOtaRowid == 0\<close>,
  then \<^verbatim>\<open>CASE WHEN n.c IS o.c THEN '.' ELSE 'x' END\<close> for every other column;
  \<^verbatim>\<open>nPK\<close> times \<^verbatim>\<open>NULL\<close>; and for every other column
  \<^verbatim>\<open>CASE WHEN n.c IS o.c THEN NULL ELSE o.c END\<close>.
\<close>

definition rbu_update_select ::
  "('r sqlite3_value \<Rightarrow> 'r sqlite3_value \<Rightarrow> bool) \<Rightarrow> nat \<Rightarrow> nat
   \<Rightarrow> 'r sqlite3_value list \<Rightarrow> 'r sqlite3_value list \<Rightarrow> 'r sqlite3_value list" where
  "rbu_update_select is_op nPK bOtaRowid new old =
     take nPK new
     @ map (\<lambda>(nv, ov). if is_op nv ov then SQLITE_NULL else nv) (drop nPK (zip new old))
     @ [SQLITE_TEXT ((if bOtaRowid = 0 then replicate nPK (CHR ''.'') else [])
                     @ map (\<lambda>(nv, ov). if is_op nv ov then CHR ''.'' else CHR ''x'')
                         (drop nPK (zip new old)))]
     @ replicate nPK SQLITE_NULL
     @ map (\<lambda>(nv, ov). if is_op nv ov then SQLITE_NULL else ov) (drop nPK (zip new old))"

text \<open>
  How the update branch can fail to print a row: \<^verbatim>\<open>rbuDeltaCreate\<close> does not return,
  the store \<^verbatim>\<open>zOtaControl[i - bOtaRowid] = 'f'\<close> falls outside the control string, or
  \<^verbatim>\<open>sqlite3_column_text\<close> returns a null pointer.
\<close>

datatype rbu_stop = Delta_hangs | Control_overrun | Control_null

text \<open>
  The block guarded by \<^verbatim>\<open>i >= nPK\<close> and both column types being \<^verbatim>\<open>SQLITE_BLOB\<close>:
  the old value is column \<^verbatim>\<open>nCol + 1 + i\<close>, the new one column \<^verbatim>\<open>i\<close>. The result is
  the hex literal printed when \<^verbatim>\<open>nDelta < nFinal\<close> (\<^verbatim>\<open>bDone = 1\<close>), and nothing when
  \<^verbatim>\<open>bDone\<close> stays 0.
\<close>

definition column_delta ::
  "bool \<Rightarrow> 'r sqlite3_value list \<Rightarrow> nat \<Rightarrow> nat \<Rightarrow> nat \<Rightarrow> rbu_stop + string option" where
  "column_delta sc row nCol nPK i =
     (if nPK \<le> i then
        (case column row i of
           SQLITE_BLOB aFinal \<Rightarrow>
             (case column row (nCol + 1 + i) of
                SQLITE_BLOB aSrc \<Rightarrow>
                  (case rbuDeltaCreate sc aSrc aFinal of
                     None \<Rightarrow> Inl Delta_hangs
                   | Some aDelta \<Rightarrow>
                       if length aDelta < length aFinal
                       then Inr (Some (''x'' @ [CHR 0x27] @ concat (map fmt_02x aDelta) @ [CHR 0x27]))
                       else Inr None)
              | _ \<Rightarrow> Inr None)
         | _ \<Rightarrow> Inr None)
      else Inr None)"

text \<open>
  The loop \<^verbatim>\<open>for (i = 0; i < nCol; i++)\<close> of the update branch. The state is the list
  of values printed so far (each is followed by a comma and a space in the output) and
  \<^verbatim>\<open>zOtaControl\<close>.
\<close>

function rbudiff_columns ::
  "bool \<Rightarrow> ('r \<Rightarrow> string) \<Rightarrow> 'r sqlite3_value list \<Rightarrow> nat \<Rightarrow> nat \<Rightarrow> nat \<Rightarrow> nat
   \<Rightarrow> string list \<times> string \<Rightarrow> rbu_stop + string list \<times> string" where
  "rbudiff_columns sc fmt_g row nCol nPK bOtaRowid i (vals, zOtaControl) =
     (if i < nCol then
        (case column_delta sc row nCol nPK i of
           Inl e \<Rightarrow> Inl e
         | Inr (Some lit) \<Rightarrow>
             if i < bOtaRowid \<or> length zOtaControl \<le> i - bOtaRowid then Inl Control_overrun
             else rbudiff_columns sc fmt_g row nCol nPK bOtaRowid (i + 1)
                    (vals @ [lit], zOtaControl[i - bOtaRowid := CHR ''f''])
         | Inr None \<Rightarrow>
             rbudiff_columns sc fmt_g row nCol nPK bOtaRowid (i + 1)
               (vals @ [printQuoted fmt_g (column row i)], zOtaControl))
      else Inr (vals, zOtaControl))"
  by pat_completeness auto
termination
  by (relation "measure (\<lambda>(sc, fmt_g, row, nCol, nPK, bOtaRowid, i, st). nCol - i)") auto

declare rbudiff_columns.simps [simp del]

text \<open>
  \<^verbatim>\<open>sqlite3_column_text\<close>, and the update branch up to the end of its loop:
  \<^verbatim>\<open>zOtaControl\<close> starts as a copy of the text of column \<^verbatim>\<open>nCol\<close>. (The buffer is
  allocated with \<^verbatim>\<open>nOtaControl\<close> bytes and \<^verbatim>\<open>nOtaControl + 1\<close> bytes are copied into
  it; here the buffer is the string it holds.)
\<close>

definition column_text :: "('r \<Rightarrow> string) \<Rightarrow> 'r sqlite3_value \<Rightarrow> string option" where
  "column_text fmt_g X =
     (case X of
        SQLITE_NULL \<Rightarrow> None
      | SQLITE_INTEGER v \<Rightarrow> Some (fmt_lld v)
      | SQLITE_FLOAT r \<Rightarrow> Some (fmt_g r)
      | SQLITE_TEXT z \<Rightarrow> Some z
      | SQLITE_BLOB z \<Rightarrow> Some z)"

definition rbudiff_update_row ::
  "bool \<Rightarrow> ('r \<Rightarrow> string) \<Rightarrow> 'r sqlite3_value list \<Rightarrow> nat \<Rightarrow> nat \<Rightarrow> nat
   \<Rightarrow> rbu_stop + string list \<times> string" where
  "rbudiff_update_row sc fmt_g row nCol nPK bOtaRowid =
     (case column_text fmt_g (column row nCol) of
        None \<Rightarrow> Inl Control_null
      | Some zOtaControl \<Rightarrow> rbudiff_columns sc fmt_g row nCol nPK bOtaRowid 0 ([], zOtaControl))"

text \<open>
  What \<^verbatim>\<open>rbudiff_one_table\<close> prints for one result row after the \<^verbatim>\<open>CREATE TABLE\<close>
  line; \<^verbatim>\<open>insert_z\<close> is the first part of the \<^verbatim>\<open>INSERT\<close> statement. A row whose
  control column is an integer (an insert or a delete) prints its first \<^verbatim>\<open>nCol + 1\<close>
  columns; any other row is an update.
\<close>

fun separated :: "string list \<Rightarrow> string" where
  "separated [] = []"
| "separated [v] = v"
| "separated (v # vs) = v @ '', '' @ separated vs"

definition rbudiff_row ::
  "bool \<Rightarrow> ('r \<Rightarrow> string) \<Rightarrow> string \<Rightarrow> 'r sqlite3_value list \<Rightarrow> nat \<Rightarrow> nat \<Rightarrow> nat
   \<Rightarrow> rbu_stop + string" where
  "rbudiff_row sc fmt_g insert_z row nCol nPK bOtaRowid =
     (case column row nCol of
        SQLITE_INTEGER v \<Rightarrow>
          Inr (insert_z @ separated (map (\<lambda>i. printQuoted fmt_g (column row i)) [0..<nCol + 1])
               @ '');'' @ [CHR 0x0A])
      | _ \<Rightarrow>
          (case rbudiff_update_row sc fmt_g row nCol nPK bOtaRowid of
             Inl e \<Rightarrow> Inl e
           | Inr (vals, zOtaControl) \<Rightarrow>
               Inr (insert_z @ concat (map (\<lambda>v. v @ '', '') vals)
                    @ [CHR 0x27] @ takeWhile (\<lambda>c. c \<noteq> CHR 0x00) zOtaControl @ [CHR 0x27]
                    @ '');'' @ [CHR 0x0A])))"

section \<open>The delta format and its decoder\<close>

text \<open>
  Modelled from the spec: the value of a base-64 digit, the inverse of the digit set
  \<^verbatim>\<open>0-9 A-Z _ a-z ~\<close>. The decoder of the delta format is not part of \<^verbatim>\<open>repqlite.c\<close>,
  which only writes deltas; a character outside the digit set has no value.
\<close>

definition zValue :: "char \<Rightarrow> nat option" where
  "zValue c =
     (let v = (of_char c :: nat)
      in if 48 \<le> v \<and> v \<le> 57 then Some (v - 48)
         else if 65 \<le> v \<and> v \<le> 90 then Some (v - 55)
         else if v = 95 then Some 36
         else if 97 \<le> v \<and> v \<le> 122 then Some (v - 60)
         else if v = 126 then Some 63
         else None)"

text \<open>
  Modelled from the spec: reading a base-64 number, the inverse of \<^verbatim>\<open>putInt\<close>. It
  consumes digits while there are any and returns the number and the rest of the text.
\<close>

fun getInt :: "string \<Rightarrow> nat \<Rightarrow> nat \<times> string" where
  "getInt [] v = (v, [])"
| "getInt (c # z) v = (case zValue c of None \<Rightarrow> (v, c # z) | Some d \<Rightarrow> getInt z (v * 64 + d))"

lemma getInt_length: "length (snd (getInt z v)) \<le> length z"
  by (induction z arbitrary: v) (auto split: option.splits intro: le_SucI)

text \<open>
  Modelled from the spec: applying the commands of a delta to the source, as the format is
  described (and in the comment \<^emph>\<open>Output Format\<close> above \<^verbatim>\<open>rbuDeltaCreate\<close>). A copy
  command \<^verbatim>\<open>NNN@MMM,\<close> appends \<^verbatim>\<open>NNN\<close> bytes of the source from offset \<^verbatim>\<open>MMM\<close>
  (\<^verbatim>\<open>NNN\<close> = 0 copies the rest of the source); a literal \<^verbatim>\<open>NNN:TTTTT\<close> appends the
  \<^verbatim>\<open>NNN\<close> bytes that follow; the last term \<^verbatim>\<open>NNN;\<close> ends the delta and carries the
  checksum. Anything else, and a command that reaches outside the source or the delta,
  is an error (\<^const>\<open>None\<close>). The result is the output and the checksum record.
\<close>

function delta_commands :: "string \<Rightarrow> string \<Rightarrow> string \<Rightarrow> (string \<times> nat) option" where
  "delta_commands zSrc zDelta zOut =
     (let cnt = fst (getInt zDelta 0); z1 = snd (getInt zDelta 0)
      in if z1 = [] then None
         else if hd z1 = CHR ''@'' then
           (let ofst = fst (getInt (tl z1) 0); z2 = snd (getInt (tl z1) 0);
                n = (if cnt = 0 then length zSrc - ofst else cnt)
            in if z2 \<noteq> [] \<and> hd z2 = CHR '','' \<and> ofst + n \<le> length zSrc
               then delta_commands zSrc (tl z2) (zOut @ take n (drop ofst zSrc))
               else None)
         else if hd z1 = CHR '':'' then
           (if cnt \<le> length (tl z1)
            then delta_commands zSrc (drop cnt (tl z1)) (zOut @ take cnt (tl z1))
            else None)
         else if hd z1 = CHR '';'' then Some (zOut, cnt)
         else None)"
  by pat_completeness auto
termination
proof (relation "measure (\<lambda>(zSrc, zDelta, zOut). length zDelta)")
  show "wf (measure (\<lambda>(zSrc, zDelta, zOut). length zDelta))" by simp
next
  fix zSrc zDelta zOut :: string and cnt z1 ofst z2 n
  assume a: "z1 = snd (getInt zDelta 0)" "z1 \<noteq> []" "z2 = snd (getInt (tl z1) 0)"
    "z2 \<noteq> [] \<and> hd z2 = CHR '','' \<and> ofst + n \<le> length zSrc"
  have "length (tl z2) < length z2" using a(4) by (cases z2) auto
  also have "\<dots> \<le> length (tl z1)" using a(3) getInt_length[of "tl z1" 0] by simp
  also have "\<dots> < length z1" using a(2) by (cases z1) auto
  also have "\<dots> \<le> length zDelta" using a(1) getInt_length[of zDelta 0] by simp
  finally show "((zSrc, tl z2, zOut @ take n (drop ofst zSrc)), zSrc, zDelta, zOut)
      \<in> measure (\<lambda>(zSrc, zDelta, zOut). length zDelta)" by simp
next
  fix zSrc zDelta zOut :: string and cnt z1
  assume a: "z1 = snd (getInt zDelta 0)" "z1 \<noteq> []"
  have "length (drop cnt (tl z1)) \<le> length (tl z1)" by simp
  also have "\<dots> < length z1" using a(2) by (cases z1) auto
  also have "\<dots> \<le> length zDelta" using a(1) getInt_length[of zDelta 0] by simp
  finally show "((zSrc, drop cnt (tl z1), zOut @ take cnt (tl z1)), zSrc, zDelta, zOut)
      \<in> measure (\<lambda>(zSrc, zDelta, zOut). length zDelta)" by simp
qed

declare delta_commands.simps [simp del]

text \<open>
  Modelled from the spec: applying a whole delta. The delta begins with the number of bytes
  of the target and a newline; the output must have that length.
\<close>

definition delta_apply :: "string \<Rightarrow> string \<Rightarrow> (string \<times> nat) option" where
  "delta_apply zSrc zDelta =
     (let limit = fst (getInt zDelta 0); z1 = snd (getInt zDelta 0)
      in if z1 \<noteq> [] \<and> hd z1 = CHR 0x0A then
           (case delta_commands zSrc (tl z1) [] of
              None \<Rightarrow> None
            | Some (zOut, ck) \<Rightarrow> if length zOut = limit then Some (zOut, ck) else None)
         else None)"

section \<open>Predicates used in the proofs\<close>

text \<open>What a remembered match guarantees.\<close>

definition fits :: "string \<Rightarrow> nat \<Rightarrow> nat \<times> nat \<times> nat \<Rightarrow> bool" where
  "fits zOut base best =
     (case best of (cnt, ofst, litsz) \<Rightarrow>
        cnt = 0 \<or>
        (length (putInt (of_nat litsz)) + length (putInt (of_nat cnt)) + length (putInt (of_nat ofst)) + 3 \<le> cnt
         \<and> base + litsz + cnt \<le> length zOut))"

definition index_ok :: "nat \<Rightarrow> int list \<Rightarrow> int list \<Rightarrow> bool" where
  "index_ok nHash collide landmark =
     (length collide = nHash \<and> length landmark = nHash
      \<and> (\<forall>e \<in> set collide. e < int nHash) \<and> (\<forall>e \<in> set landmark. e < int nHash))"

text \<open>
  A piece of a delta decodes to a piece of output: wherever it stands in a delta, the
  decoder appends that output and goes on with what follows.
\<close>

definition Decodes :: "string \<Rightarrow> string \<Rightarrow> string \<Rightarrow> bool" where
  "Decodes zSrc D out =
     (\<forall>rest acc. delta_commands zSrc (D @ rest) acc = delta_commands zSrc rest (acc @ out))"

text \<open>A remembered match copies what the target holds.\<close>

definition matches :: "string \<Rightarrow> string \<Rightarrow> nat \<Rightarrow> nat \<times> nat \<times> nat \<Rightarrow> bool" where
  "matches zSrc zOut base best =
     (case best of (cnt, ofst, litsz) \<Rightarrow>
        cnt = 0 \<or>
        (ofst + cnt \<le> length zSrc \<and> base + litsz + cnt \<le> length zOut
         \<and> take cnt (drop ofst zSrc) = take cnt (drop (base + litsz) zOut)))"


section \<open>Base-64 integers: digits written and digits counted\<close>

lemma unat_drop_bit6: "unat (drop_bit 6 (v::u32)) = unat v div 64"
  by (simp add: drop_bit_eq_div unat_div)

lemma length_putInt_zBuf: "v \<noteq> 0 \<Longrightarrow> length (putInt_zBuf v) = ndigits (unat v)"
proof (induction v rule: putInt_zBuf.induct)
  case (1 v)
  show ?case
  proof (cases "drop_bit 6 v = 0")
    case True
    then have "unat v div 64 = 0" using unat_drop_bit6[of v] by simp
    then have "unat v < 64" by simp
    with True 1 show ?thesis
      by (simp add: ndigits.simps[of "unat v"] putInt_zBuf.simps[of v] putInt_zBuf.simps[of 0])
  next
    case False
    then have "unat v div 64 \<noteq> 0" using unat_drop_bit6[of v] by (metis unat_eq_0)
    then have "\<not> unat v < 64" by simp
    with False 1 show ?thesis
      by (simp add: ndigits.simps[of "unat v"] unat_drop_bit6 putInt_zBuf.simps[of v])
  qed
qed

lemma length_putInt: "length (putInt v) = ndigits (unat v)"
proof (cases "v = 0")
  case True
  then show ?thesis by (simp add: putInt_def ndigits.simps[of 0])
next
  case False
  then show ?thesis by (simp add: putInt_def length_putInt_zBuf)
qed

lemma digit_count_ndigits: "v < 2 ^ 30 \<Longrightarrow> digit_count v = Some (ndigits (unat v))"
  apply (simp add: digit_count_def)
  apply (subst digit_count_loop.simps)
  apply (subst digit_count_loop.simps)
  apply (subst digit_count_loop.simps)
  apply (subst digit_count_loop.simps)
  apply (subst digit_count_loop.simps)
  apply (simp add: word_le_nat_alt word_less_nat_alt)
  apply (simp add: ndigits.simps[of "unat v"] ndigits.simps[of "unat v div 64"]
      ndigits.simps[of "unat v div 64 div 64"] ndigits.simps[of "unat v div 64 div 64 div 64"]
      ndigits.simps[of "unat v div 64 div 64 div 64 div 64"])
  apply auto
  done

text \<open>
  C10. For every \<open>v < 2^30\<close>, \<^verbatim>\<open>putInt\<close> writes exactly \<^verbatim>\<open>digit_count(v)\<close> base-64
  characters; \<^verbatim>\<open>putInt(0)\<close> writes the single digit \<^verbatim>\<open>'0'\<close> and
  \<^verbatim>\<open>digit_count(0)\<close> is 1.
\<close>

theorem putInt_writes_digit_count:
  "(v < 2 ^ 30 \<longrightarrow> digit_count v = Some (length (putInt v)))
   \<and> putInt 0 = ''0'' \<and> digit_count 0 = Some 1"
proof (intro conjI impI)
  assume "v < 2 ^ 30"
  then show "digit_count v = Some (length (putInt v))"
    by (simp add: digit_count_ndigits length_putInt)
next
  show "putInt 0 = ''0''" by (simp add: putInt_def)
next
  show "digit_count 0 = Some 1"
    by (simp add: digit_count_def digit_count_loop.simps)
qed

theorem putInt_writes_digit_count_witness:
  "(4095 :: u32) < 2 ^ 30 \<and> digit_count 4095 = Some (length (putInt 4095))
   \<and> putInt 4095 = ''~~'' \<and> putInt 0 = ''0'' \<and> digit_count 0 = Some 1"
  using putInt_writes_digit_count [of 4095]
  by (simp add: putInt_def zDigits_def putInt_zBuf.simps)


section \<open>Running the encoder on concrete BLOBs\<close>

lemma chain_walk_numeral:
  "chain_walk zSrc zOut collide base i (numeral n) iBlock best =
     (if 0 \<le> iBlock then
        (case candidate zSrc zOut base i (nat iBlock) of
           None \<Rightarrow> None
         | Some c \<Rightarrow> chain_walk zSrc zOut collide base i (pred_numeral n) (collide ! nat iBlock) (remember c best))
      else Some best)"
  by (simp add: numeral_eq_Suc)

lemma upt16: "[0..<16] = [0, 1, 2, 3, 4, 5, 6, 7, 8, 9, 10, 11, 12, 13, 14, 15]"
  by (simp add: upt_rec)

lemmas encoder_eval =
  rbuDeltaCreate_def encode_loop.simps scan.simps chain_walk_numeral candidate_def remember_def
  match_fwd.simps match_bwd.simps build_index.simps hash_init_def hash_next_def hash_32bit_def
  char_u16_def upt16 checksum_def uchar_def
  putInt_def putInt_zBuf.simps zDigits_def digit_count_def digit_count_loop.simps Let_def
  word_le_nat_alt word_less_nat_alt

section \<open>The size of a delta\<close>

lemma digit_count_loop_nonzero:
  assumes "digit_count_loop v i x = Some r"
  shows "x \<noteq> 0"
proof -
  have "(case ((v, i), x) of (a, x) \<Rightarrow> (case a of (v, i) \<Rightarrow> \<lambda>x r. x \<noteq> 0) x) r"
  proof (rule digit_count_loop.raw_induct[where P="\<lambda>v i x r. x \<noteq> 0" and xa="((v, i), x)" and y=r])
    fix f :: "u32 \<Rightarrow> u32 \<Rightarrow> u32 \<Rightarrow> u32 option" and v i x va
    assume ih: "\<And>i x b y. f i x b = Some y \<Longrightarrow> b \<noteq> 0"
      and eq: "(if x \<le> v then f v (i + 1) (push_bit 6 x) else Some i) = Some va"
    show "x \<noteq> 0"
    proof
      assume "x = 0"
      with eq have "f v (i + 1) 0 = Some va" by simp
      with ih show False by blast
    qed
  next
    show "(case ((v, i), x) of (a, x) \<Rightarrow> (case a of (v, i) \<Rightarrow> digit_count_loop v i) x) = Some r"
      using assms by simp
  qed
  then show ?thesis by simp
qed

lemma digit_count_None: "\<not> v < 2 ^ 30 \<Longrightarrow> digit_count v = None"
proof -
  assume a: "\<not> v < 2 ^ 30"
  have z: "digit_count_loop v 6 0 = None"
    using digit_count_loop_nonzero[of v 6 0] by (cases "digit_count_loop v 6 0") auto
  have e: "(68719476736 :: u32) = 0" by simp
  from a have b: "(2 ^ 30 :: u32) \<le> v" by simp
  then have c: "(64 :: u32) \<le> v" "(4096 :: u32) \<le> v" "(262144 :: u32) \<le> v"
    "(16777216 :: u32) \<le> v" "(1073741824 :: u32) \<le> v"
    by (simp_all add: word_le_nat_alt)
  have "digit_count_loop v 1 64 = None"
    apply (subst digit_count_loop.simps)
    apply (subst digit_count_loop.simps)
    apply (subst digit_count_loop.simps)
    apply (subst digit_count_loop.simps)
    apply (subst digit_count_loop.simps)
    using c apply simp
    apply (subst e)
    apply (rule z)
    done
  then show ?thesis by (simp add: digit_count_def)
qed

lemma ndigits_le6: "n < 2 ^ 32 \<Longrightarrow> ndigits n \<le> 6"
  by (simp add: ndigits.simps[of "n"] ndigits.simps[of "n div 64"]
      ndigits.simps[of "n div 64 div 64"] ndigits.simps[of "n div 64 div 64 div 64"]
      ndigits.simps[of "n div 64 div 64 div 64 div 64"] ndigits.simps[of "n div 64 div 64 div 64 div 64 div 64"])

lemma length_putInt_le6: "length (putInt v) \<le> 6"
  using ndigits_le6[of "unat v"] unsigned_less[of v] by (simp add: length_putInt)

lemma ndigits_pos: "0 < ndigits n"
  by (simp add: ndigits.simps[of n])

lemma digit_count_SomeD: "digit_count v = Some n \<Longrightarrow> v < 2 ^ 30 \<and> n = length (putInt v)"
  using digit_count_None[of v] digit_count_ndigits[of v] by (cases "v < 2 ^ 30") (auto simp: length_putInt)

lemma match_fwd_bounds:
  "j \<le> match_fwd zSrc zOut x y j \<and> match_fwd zSrc zOut x y j \<le> j + (length zOut - y)
   \<and> match_fwd zSrc zOut x y j \<le> j + (length zSrc - x)"
proof (induction zSrc zOut x y j rule: match_fwd.induct)
  case (1 zSrc zOut x y j)
  show ?case
  proof (cases "x < length zSrc \<and> y < length zOut \<and> zSrc ! x = zOut ! y")
    case True
    with 1 show ?thesis by (subst (1 2 3) match_fwd.simps) auto
  next
    case False
    then show ?thesis by (subst (1 2 3) match_fwd.simps) auto
  qed
qed

lemma match_fwd_eq:
  "t < match_fwd zSrc zOut x y j - j \<Longrightarrow> zSrc ! (x + t) = zOut ! (y + t)"
proof (induction zSrc zOut x y j arbitrary: t rule: match_fwd.induct)
  case (1 zSrc zOut x y j)
  show ?case
  proof (cases "x < length zSrc \<and> y < length zOut \<and> zSrc ! x = zOut ! y")
    case True
    then have eq: "match_fwd zSrc zOut x y j = match_fwd zSrc zOut (x + 1) (y + 1) (j + 1)"
      by (subst match_fwd.simps) simp
    show ?thesis
    proof (cases t)
      case 0
      with True show ?thesis by simp
    next
      case (Suc t')
      with "1.prems" eq have "t' < match_fwd zSrc zOut (x + 1) (y + 1) (j + 1) - (j + 1)" by simp
      from "1.IH"[OF True this] Suc show ?thesis by simp
    qed
  next
    case False
    then have "match_fwd zSrc zOut x y j = j" by (subst match_fwd.simps) auto
    with "1.prems" show ?thesis by simp
  qed
qed

lemma match_bwd_bounds:
  "k \<le> match_bwd zSrc zOut iSrc y i k \<and> match_bwd zSrc zOut iSrc y i k \<le> max k (i + 1)
   \<and> match_bwd zSrc zOut iSrc y i k \<le> max k iSrc"
proof (induction zSrc zOut iSrc y i k rule: match_bwd.induct)
  case (1 zSrc zOut iSrc y i k)
  show ?case
  proof (cases "k < iSrc \<and> k \<le> i \<and> zSrc ! (iSrc - k) = zOut ! (y - k)")
    case True
    with 1 show ?thesis by (subst (1 2 3) match_bwd.simps) auto
  next
    case False
    then show ?thesis by (subst (1 2 3) match_bwd.simps) auto
  qed
qed

lemma match_bwd_eq:
  "k \<le> t \<Longrightarrow> t < match_bwd zSrc zOut iSrc y i k \<Longrightarrow> zSrc ! (iSrc - t) = zOut ! (y - t)"
proof (induction zSrc zOut iSrc y i k rule: match_bwd.induct)
  case (1 zSrc zOut iSrc y i k)
  show ?case
  proof (cases "k < iSrc \<and> k \<le> i \<and> zSrc ! (iSrc - k) = zOut ! (y - k)")
    case True
    then have eq: "match_bwd zSrc zOut iSrc y i k = match_bwd zSrc zOut iSrc y i (k + 1)"
      by (subst match_bwd.simps) simp
    show ?thesis
    proof (cases "t = k")
      case True
      with \<open>k < iSrc \<and> k \<le> i \<and> zSrc ! (iSrc - k) = zOut ! (y - k)\<close> show ?thesis by simp
    next
      case False
      with "1.prems" eq have "k + 1 \<le> t" "t < match_bwd zSrc zOut iSrc y i (k + 1)" by simp_all
      from "1.IH"[OF True this] show ?thesis .
    qed
  next
    case False
    then have "match_bwd zSrc zOut iSrc y i k = k" by (subst match_bwd.simps) auto
    with "1.prems" show ?thesis by simp
  qed
qed

lemma candidate_fits:
  assumes "candidate zSrc zOut base i iBlock = Some (cnt, ofst, litsz, sz)"
    and "base + i \<le> length zOut"
  shows "sz = length (putInt (of_nat litsz)) + length (putInt (of_nat cnt)) + length (putInt (of_nat ofst)) + 3
         \<and> base + litsz + cnt \<le> length zOut \<and> litsz \<le> i"
proof -
  define j where "j = match_fwd zSrc zOut (iBlock * 16) (base + i) 0"
  define k where "k = match_bwd zSrc zOut (iBlock * 16) (base + i) i 1 - 1"
  have jb: "j \<le> length zOut - (base + i)"
    using match_fwd_bounds[of 0 zSrc zOut "iBlock * 16" "base + i"] by (simp add: j_def)
  have "match_bwd zSrc zOut (iBlock * 16) (base + i) i 1 \<le> max 1 (i + 1)"
    using match_bwd_bounds[of 1 zSrc zOut "iBlock * 16" "base + i" i] by blast
  then have kb: "k \<le> i" by (simp add: k_def)
  from assms(1) obtain d1 d2 d3 where
    d: "digit_count (of_nat (i - k)) = Some d1" "digit_count (of_nat (j + k)) = Some d2"
       "digit_count (of_nat (iBlock * 16 - k)) = Some d3"
    and r: "cnt = j + k" "ofst = iBlock * 16 - k" "litsz = i - k" "sz = d1 + d2 + d3 + 3"
    by (auto simp: candidate_def Let_def j_def k_def split: option.splits)
  from d r have "sz = length (putInt (of_nat litsz)) + length (putInt (of_nat cnt)) + length (putInt (of_nat ofst)) + 3"
    by (auto dest!: digit_count_SomeD)
  moreover from jb kb r assms(2) have "base + litsz + cnt \<le> length zOut" by simp
  moreover from r have "litsz \<le> i" by simp
  ultimately show ?thesis by simp
qed

lemma remember_fits:
  assumes "candidate zSrc zOut base i iBlock = Some c" and "base + i \<le> length zOut"
    and "fits zOut base best"
  shows "fits zOut base (remember c best)"
proof -
  obtain cnt ofst litsz sz where c: "c = (cnt, ofst, litsz, sz)" by (cases c) auto
  from candidate_fits[OF assms(1)[unfolded c] assms(2)] assms(3) show ?thesis
    by (auto simp: remember_def c fits_def)
qed

lemma chain_walk_fits:
  "chain_walk zSrc zOut collide base i limit iBlock best = Some best' \<Longrightarrow> base + i \<le> length zOut
   \<Longrightarrow> fits zOut base best \<Longrightarrow> fits zOut base best'"
proof (induction limit arbitrary: iBlock best)
  case 0
  then show ?case by simp
next
  case (Suc limit)
  show ?case
  proof (cases "0 \<le> iBlock")
    case True
    with Suc.prems(1) obtain c where
      c: "candidate zSrc zOut base i (nat iBlock) = Some c"
      and w: "chain_walk zSrc zOut collide base i limit (collide ! nat iBlock) (remember c best) = Some best'"
      by (auto split: option.splits)
    from Suc.IH[OF w Suc.prems(2) remember_fits[OF c Suc.prems(2) Suc.prems(3)]] show ?thesis .
  next
    case False
    with Suc.prems show ?thesis by simp
  qed
qed

lemma scan_size:
  "scan sc zSrc zOut nHash collide landmark base i h = Some (base', out) \<Longrightarrow> base + i + 16 \<le> length zOut
   \<Longrightarrow> base' \<le> length zOut \<and> base < base'
       \<and> (length out \<le> base' - base \<or> (base' = length zOut \<and> length out \<le> length zOut - base + 7))"
proof (induction sc zSrc zOut nHash collide landmark base i h rule: scan.induct)
  case (1 sc zSrc zOut nHash collide landmark base i h)
  define iBlock where "iBlock = landmark ! (unat (hash_32bit h) mod nHash)"
  from "1.prems"(1) obtain bestCnt bestOfst bestLitsz where
    w: "chain_walk zSrc zOut collide base i 250 iBlock (0, 0, 0) = Some (bestCnt, bestOfst, bestLitsz)"
    by (subst (asm) scan.simps) (auto simp: Let_def iBlock_def split: option.splits)
  have f0: "fits zOut base (0, 0, 0)" by (simp add: fits_def)
  from "1.prems"(2) have bi: "base + i \<le> length zOut" by simp
  note ft = chain_walk_fits[OF w bi f0]
  show ?case
  proof (cases "0 < bestCnt")
    case True
    with "1.prems"(1) w have
      b: "base' = base + bestLitsz + bestCnt"
      and o: "out = (if 0 < bestLitsz
                      then putInt (of_nat bestLitsz) @ '':'' @ take bestLitsz (drop base zOut)
                      else []) @
                     putInt (of_nat bestCnt) @ ''@'' @ putInt (of_nat bestOfst) @ '',''"
      by (subst (asm) scan.simps; simp add: Let_def iBlock_def)+
    from ft True have
      s: "length (putInt (of_nat bestLitsz)) + length (putInt (of_nat bestCnt)) + length (putInt (of_nat bestOfst)) + 3 \<le> bestCnt"
      and l: "base + bestLitsz + bestCnt \<le> length zOut"
      by (auto simp: fits_def)
    from o s have "length out \<le> bestLitsz + bestCnt" by (auto split: if_splits)
    with b l True show ?thesis by simp
  next
    case False
    note nb = this
    show ?thesis
    proof (cases "length zOut \<le> base + i + 16")
      case True
      with "1.prems"(1) w nb have
        b: "base' = length zOut"
        and o: "out = putInt (of_nat (length zOut - base)) @ '':'' @ drop base zOut"
        by (subst (asm) scan.simps; simp add: Let_def iBlock_def)+
      from o have "length out \<le> length zOut - base + 7"
        using length_putInt_le6[of "of_nat (length zOut - base)"] by simp
      with b "1.prems"(2) show ?thesis by simp
    next
      case False
      with "1.prems"(1) w nb have
        r: "scan sc zSrc zOut nHash collide landmark base (i + 1) (hash_next sc h (zOut ! (base + i + 16))) = Some (base', out)"
        by (subst (asm) scan.simps) (simp add: Let_def iBlock_def)
      from False have "base + (i + 1) + 16 \<le> length zOut" by simp
      from "1.IH"[OF refl refl w[unfolded iBlock_def] refl refl nb False r this] show ?thesis .
    qed
  qed
qed

lemma encode_loop_size:
  "encode_loop sc zSrc zOut nHash collide landmark base zDelta = Some (base', zDelta') \<Longrightarrow>
   base \<le> length zOut \<Longrightarrow>
   base \<le> base' \<and> base' \<le> length zOut \<and>
   (\<exists>out. zDelta' = zDelta @ out \<and> (base' < length zOut \<longrightarrow> length out \<le> base' - base)
      \<and> length out \<le> base' - base + 7
      \<and> (length zOut \<le> base + 16 \<longrightarrow> out = [] \<and> base' = base))"
proof (induction sc zSrc zOut nHash collide landmark base zDelta rule: encode_loop.induct)
  case (1 sc zSrc zOut nHash collide landmark base zDelta)
  show ?case
  proof (cases "base + 16 < length zOut")
    case True
    with "1.prems"(1) obtain b1 o1 where
      s: "scan sc zSrc zOut nHash collide landmark base 0 (hash_init sc (drop base zOut)) = Some (b1, o1)"
      and r: "encode_loop sc zSrc zOut nHash collide landmark b1 (zDelta @ o1) = Some (base', zDelta')"
      by (subst (asm) encode_loop.simps) (auto split: option.splits)
    from True have "base + 0 + 16 \<le> length zOut" by simp
    from scan_size[OF s this] have
      b1: "b1 \<le> length zOut" "base < b1"
      and o1: "length o1 \<le> b1 - base \<or> (b1 = length zOut \<and> length o1 \<le> length zOut - base + 7)"
      by auto
    from "1.IH"[OF True s refl r b1(1)] obtain o2 where
      i: "b1 \<le> base'" "base' \<le> length zOut" "zDelta' = (zDelta @ o1) @ o2"
         "base' < length zOut \<longrightarrow> length o2 \<le> base' - b1" "length o2 \<le> base' - b1 + 7"
         "length zOut \<le> b1 + 16 \<longrightarrow> o2 = [] \<and> base' = b1"
      by blast
    have "zDelta' = zDelta @ (o1 @ o2)" using i(3) by simp
    moreover have "base' < length zOut \<longrightarrow> length (o1 @ o2) \<le> base' - base"
      using i b1 o1 by auto
    moreover have "length (o1 @ o2) \<le> base' - base + 7"
      using i b1 o1 by auto
    moreover have "\<not> length zOut \<le> base + 16" using True by simp
    ultimately show ?thesis using i(1,2) b1 by (intro conjI exI[of _ "o1 @ o2"]) auto
  next
    case False
    with "1.prems" have "base' = base" "zDelta' = zDelta"
      by (subst (asm) encode_loop.simps; simp)+
    with "1.prems"(2) False show ?thesis by simp
  qed
qed

lemma rbuDeltaCreate_length:
  assumes "rbuDeltaCreate sc zSrc zOut = Some zDelta"
  shows "length zDelta \<le> length zOut + 21"
proof (cases "length zSrc \<le> 16")
  case True
  with assms have "zDelta = putInt (of_nat (length zOut)) @ [CHR 0x0A] @ putInt (of_nat (length zOut)) @ '':'' @ zOut @ putInt (checksum zOut) @ '';''"
    by (simp add: rbuDeltaCreate_def Let_def)
  then show ?thesis
    using length_putInt_le6[of "of_nat (length zOut)"] length_putInt_le6[of "checksum zOut"] by simp
next
  case False
  obtain collide landmark where
    t: "build_index sc zSrc (length zSrc div 16) 0
          (replicate (length zSrc div 16) (- 1), replicate (length zSrc div 16) (- 1)) = (collide, landmark)"
    by (cases "build_index sc zSrc (length zSrc div 16) 0
          (replicate (length zSrc div 16) (- 1), replicate (length zSrc div 16) (- 1))") auto
  from assms False t obtain base d where
    e: "encode_loop sc zSrc zOut (length zSrc div 16) collide landmark 0
          (putInt (of_nat (length zOut)) @ [CHR 0x0A]) = Some (base, d)"
    and z: "zDelta = (if base < length zOut
                      then d @ putInt (of_nat (length zOut - base)) @ '':'' @ drop base zOut
                      else d) @ putInt (checksum zOut) @ '';''"
    by (auto simp: rbuDeltaCreate_def Let_def split: option.splits)
  from encode_loop_size[OF e] obtain out where
    o: "base \<le> length zOut" "d = (putInt (of_nat (length zOut)) @ [CHR 0x0A]) @ out"
       "base < length zOut \<longrightarrow> length out \<le> base" "length out \<le> base + 7"
    by auto
  show ?thesis
    using z o length_putInt_le6[of "of_nat (length zOut)"] length_putInt_le6[of "checksum zOut"]
      length_putInt_le6[of "of_nat (length zOut - base)"]
    by (auto split: if_splits)
qed

lemma index_ok_update:
  assumes "index_ok nHash collide landmark" and "b < nHash" and "hv < nHash"
  shows "index_ok nHash (collide[b := landmark ! hv]) (landmark[hv := int b])"
proof -
  from assms have "landmark ! hv < int nHash" by (simp add: index_ok_def)
  with assms show ?thesis
    using set_update_subset_insert[of collide b "landmark ! hv"]
      set_update_subset_insert[of landmark hv "int b"]
    by (auto simp: index_ok_def)
qed

lemma build_index_ok:
  "index_ok nHash collide landmark \<Longrightarrow> nHash = length zSrc div 16 \<Longrightarrow> 16 < length zSrc \<Longrightarrow>
   build_index sc zSrc nHash i (collide, landmark) = (collide', landmark') \<Longrightarrow>
   index_ok nHash collide' landmark'"
proof (induction sc zSrc nHash i "(collide, landmark)" arbitrary: collide landmark rule: build_index.induct)
  case (1 sc zSrc nHash i collide landmark)
  show ?case
  proof (cases "i < length zSrc - 16")
    case True
    define hv where "hv = unat (hash_32bit (hash_init sc (drop i zSrc))) mod nHash"
    from "1.prems"(2,3) have "0 < nHash" by simp
    then have hv: "hv < nHash" by (simp add: hv_def)
    from True "1.prems"(2) have "i div 16 < nHash" by simp
    from index_ok_update[OF "1.prems"(1) this hv]
    have ok: "index_ok nHash (collide[i div 16 := landmark ! hv]) (landmark[hv := int (i div 16)])" .
    from "1.prems"(4) True have
      "build_index sc zSrc nHash (i + 16) (collide[i div 16 := landmark ! hv], landmark[hv := int (i div 16)])
       = (collide', landmark')"
      by (subst (asm) build_index.simps) (simp add: Let_def hv_def)
    from "1.hyps"[OF True refl refl ok[unfolded hv_def] "1.prems"(2,3) this[unfolded hv_def]]
    show ?thesis .
  next
    case False
    with "1.prems"(4) have "collide' = collide" "landmark' = landmark"
      by (simp_all add: build_index.simps[of sc zSrc nHash i])
    with "1.prems"(1) show ?thesis by simp
  qed
qed

lemma u32_of_nat_less: "n < 2 ^ 30 \<Longrightarrow> (of_nat n :: u32) < 2 ^ 30"
  by (simp add: word_less_nat_alt unat_of_nat)

lemma digit_count_of_nat: "n < 2 ^ 30 \<Longrightarrow> \<exists>d. digit_count (of_nat n) = Some d"
  using digit_count_ndigits[OF u32_of_nat_less] by blast

lemma candidate_Some:
  assumes "iBlock * 16 < 2 ^ 30" and "base + i \<le> length zOut" and "length zOut < 2 ^ 30"
  shows "\<exists>c. candidate zSrc zOut base i iBlock = Some c"
proof -
  define j where "j = match_fwd zSrc zOut (iBlock * 16) (base + i) 0"
  define k where "k = match_bwd zSrc zOut (iBlock * 16) (base + i) i 1 - 1"
  have jb: "j \<le> length zOut - (base + i)"
    using match_fwd_bounds[of 0 zSrc zOut "iBlock * 16" "base + i"] by (simp add: j_def)
  have "match_bwd zSrc zOut (iBlock * 16) (base + i) i 1 \<le> max 1 (i + 1)"
    using match_bwd_bounds[of 1 zSrc zOut "iBlock * 16" "base + i" i] by blast
  then have kb: "k \<le> i" by (simp add: k_def)
  from assms jb kb have b: "i - k < 2 ^ 30" "j + k < 2 ^ 30" "iBlock * 16 - k < 2 ^ 30" by simp_all
  from digit_count_of_nat[OF b(1)] obtain d1 where d1: "digit_count (of_nat (i - k)) = Some d1" ..
  from digit_count_of_nat[OF b(2)] obtain d2 where d2: "digit_count (of_nat (j + k)) = Some d2" ..
  from digit_count_of_nat[OF b(3)] obtain d3 where
    d3: "digit_count (of_nat (iBlock * 16 - k)) = Some d3" ..
  show ?thesis
    unfolding candidate_def Let_def j_def[symmetric] k_def[symmetric] d1 d2 d3 by simp
qed

lemma chain_walk_Some:
  assumes "index_ok nHash collide landmark" and "nHash * 16 \<le> length zSrc" and "length zSrc < 2 ^ 30"
    and "base + i \<le> length zOut" and "length zOut < 2 ^ 30"
  shows "iBlock < int nHash \<Longrightarrow> \<exists>r. chain_walk zSrc zOut collide base i limit iBlock best = Some r"
proof (induction limit arbitrary: iBlock best)
  case 0
  show ?case by (rule exI[of _ best]) simp
next
  case (Suc limit)
  show ?case
  proof (cases "0 \<le> iBlock")
    case True
    with Suc.prems have n: "nat iBlock < nHash" by simp
    with assms(2,3) have "nat iBlock * 16 < 2 ^ 30" by simp
    from candidate_Some[OF this assms(4,5)] obtain c where
      c: "candidate zSrc zOut base i (nat iBlock) = Some c" by blast
    from n assms(1) have "collide ! nat iBlock < int nHash" by (simp add: index_ok_def)
    from Suc.IH[OF this, of "remember c best"] c True show ?thesis by simp
  next
    case False
    then show ?thesis by (intro exI[of _ best]) simp
  qed
qed


lemma scan_Some:
  assumes "index_ok nHash collide landmark" and "nHash * 16 \<le> length zSrc" and "length zSrc < 2 ^ 30"
    and "length zOut < 2 ^ 30" and "0 < nHash"
  shows "base + i \<le> length zOut \<Longrightarrow> \<exists>r. scan sc zSrc zOut nHash collide landmark base i h = Some r"
  using assms
proof (induction sc zSrc zOut nHash collide landmark base i h rule: scan.induct)
  case (1 sc zSrc zOut nHash collide landmark base i h)
  define iBlock where "iBlock = landmark ! (unat (hash_32bit h) mod nHash)"
  from "1.prems" have "iBlock < int nHash" by (simp add: iBlock_def index_ok_def)
  from chain_walk_Some[OF "1.prems"(2,3,4,1,5) this, of 250 "(0, 0, 0)"] obtain bestCnt bestOfst bestLitsz where
    w: "chain_walk zSrc zOut collide base i 250 iBlock (0, 0, 0) = Some (bestCnt, bestOfst, bestLitsz)"
    by (metis prod_cases3)
  show ?case
  proof (cases "0 < bestCnt \<or> length zOut \<le> base + i + 16")
    case True
    with w show ?thesis by (subst scan.simps) (auto simp: Let_def iBlock_def)
  next
    case False
    then have nb: "\<not> 0 < bestCnt" and nl: "\<not> length zOut \<le> base + i + 16" by simp_all
    from nl have "base + (i + 1) \<le> length zOut" by simp
    from "1.IH"[OF refl refl w[unfolded iBlock_def] refl refl nb nl this "1.prems"(2-)]
    obtain r where
      "scan sc zSrc zOut nHash collide landmark base (i + 1) (hash_next sc h (zOut ! (base + i + 16))) = Some r" ..
    with w nb nl show ?thesis by (subst scan.simps) (simp add: Let_def iBlock_def)
  qed
qed

lemma encode_loop_Some:
  assumes "index_ok nHash collide landmark" and "nHash * 16 \<le> length zSrc" and "length zSrc < 2 ^ 30"
    and "length zOut < 2 ^ 30" and "0 < nHash"
  shows "\<exists>r. encode_loop sc zSrc zOut nHash collide landmark base zDelta = Some r"
  using assms
proof (induction sc zSrc zOut nHash collide landmark base zDelta rule: encode_loop.induct)
  case (1 sc zSrc zOut nHash collide landmark base zDelta)
  show ?case
  proof (cases "base + 16 < length zOut")
    case True
    then have "base + 0 \<le> length zOut" by simp
    from scan_Some[OF "1.prems" this] obtain b1 o1 where
      s: "scan sc zSrc zOut nHash collide landmark base 0 (hash_init sc (drop base zOut)) = Some (b1, o1)"
      by (metis surj_pair)
    from "1.IH"[OF True s refl "1.prems"] obtain r where
      "encode_loop sc zSrc zOut nHash collide landmark b1 (zDelta @ o1) = Some r" ..
    with True s show ?thesis by (subst encode_loop.simps) simp
  next
    case False
    then show ?thesis by (subst encode_loop.simps) simp
  qed
qed

lemma rbuDeltaCreate_Some:
  assumes "length zSrc < 2 ^ 30" and "length zOut < 2 ^ 30"
  shows "\<exists>zDelta. rbuDeltaCreate sc zSrc zOut = Some zDelta"
proof (cases "length zSrc \<le> 16")
  case True
  then show ?thesis by (simp add: rbuDeltaCreate_def Let_def)
next
  case False
  define nHash where "nHash = length zSrc div 16"
  obtain collide landmark where
    t: "build_index sc zSrc nHash 0 (replicate nHash (- 1), replicate nHash (- 1)) = (collide, landmark)"
    by (cases "build_index sc zSrc nHash 0 (replicate nHash (- 1), replicate nHash (- 1))") auto
  have "index_ok nHash (replicate nHash (- 1)) (replicate nHash (- 1))"
    by (simp add: index_ok_def)
  from build_index_ok[OF this nHash_def _ t] False
  have ok: "index_ok nHash collide landmark" by simp
  from False have n: "nHash * 16 \<le> length zSrc" "0 < nHash" by (simp_all add: nHash_def)
  from encode_loop_Some[OF ok n(1) assms n(2)] obtain r where
    "encode_loop sc zSrc zOut nHash collide landmark 0 (putInt (of_nat (length zOut)) @ [CHR 0x0A]) = Some r" ..
  with False t show ?thesis by (auto simp: rbuDeltaCreate_def Let_def nHash_def split: prod.splits)
qed

text \<open>
  Whenever \<^verbatim>\<open>rbuDeltaCreate\<close> returns, the delta it has written is at most
  \<open>|T| + 60\<close> bytes long (in fact at most \<open>|T| + 21\<close>); and it does return when both BLOBs
  are shorter than \<open>2^30\<close> bytes.
\<close>

lemma rbuDeltaCreate_size:
  "(length zSrc < 2 ^ 30 \<and> length zOut < 2 ^ 30 \<longrightarrow> rbuDeltaCreate sc zSrc zOut \<noteq> None)
   \<and> (\<forall>zDelta. rbuDeltaCreate sc zSrc zOut = Some zDelta \<longrightarrow> length zDelta \<le> length zOut + 60)"
proof (intro conjI impI allI)
  assume "length zSrc < 2 ^ 30 \<and> length zOut < 2 ^ 30"
  then show "rbuDeltaCreate sc zSrc zOut \<noteq> None"
    using rbuDeltaCreate_Some[of zSrc zOut sc] by auto
next
  fix zDelta
  assume "rbuDeltaCreate sc zSrc zOut = Some zDelta"
  from rbuDeltaCreate_length[OF this] show "length zDelta \<le> length zOut + 60" by simp
qed

lemma rbuDeltaCreate_size_example:
  "length ''abcdefghijklmnopqrstuvwxyz0123456789'' < 2 ^ 30
   \<and> length ''XXabcdefghijklmnopqrstuvwxyz0123456789YY'' < 2 ^ 30
   \<and> rbuDeltaCreate True ''abcdefghijklmnopqrstuvwxyz0123456789''
         ''XXabcdefghijklmnopqrstuvwxyz0123456789YY''
       = Some (''d'' @ [CHR 0x0A] @ ''2:XX_@0,2:YY25Zg~5;'')
   \<and> length (''d'' @ [CHR 0x0A] @ ''2:XX_@0,2:YY25Zg~5;'')
       \<le> length ''XXabcdefghijklmnopqrstuvwxyz0123456789YY'' + 60"
  using rbuDeltaCreate_size [of "''abcdefghijklmnopqrstuvwxyz0123456789''"
      "''XXabcdefghijklmnopqrstuvwxyz0123456789YY''" True]
  by (simp add: encoder_eval cong: option.case_cong_weak prod.case_cong_weak)

section \<open>The hash table of the delta encoder\<close>

text \<open>
  C3. The claim is that every 16-byte block at offset \<open>16 * i\<close>, for \<open>i\<close> below
  \<open>nHash = lenSrc div 16\<close>, is entered into the landmark and collision arrays. For a source of
  32 bytes \<open>nHash\<close> is 2, and the loop \<^verbatim>\<open>for (i = 0; i < lenSrc - NHASH; i += NHASH)\<close> runs
  once: block 0 is entered and block 1 (bytes 16 to 31) is not. With one more byte both blocks
  are entered.
\<close>

theorem build_index_32_bytes:
  "length ''abcdefghijklmnopqrstuvwxyz012345'' div 16 = 2
   \<and> build_index sc ''abcdefghijklmnopqrstuvwxyz012345'' 2 0 ([- 1, - 1], [- 1, - 1])
       = ([- 1, - 1], [0, - 1])
   \<and> build_index sc ''abcdefghijklmnopqrstuvwxyz0123456'' 2 0 ([- 1, - 1], [- 1, - 1])
       = ([- 1, 0], [1, - 1])"
  by (simp add: build_index.simps hash_init_def hash_32bit_def char_u16_def upt16)

section \<open>Quoting identifiers\<close>

lemma safeId_scan_None:
  "j < length zs \<Longrightarrow> \<not> isalpha (zs ! j) \<Longrightarrow> zs ! j \<noteq> CHR ''_'' \<Longrightarrow> \<not> (0 < i + j \<and> isdigit (zs ! j))
   \<Longrightarrow> safeId_scan zs i x = None"
proof (induction zs arbitrary: i j x)
  case Nil
  then show ?case by simp
next
  case (Cons c cs)
  show ?case
  proof (cases j)
    case 0
    with Cons.prems show ?thesis by auto
  next
    case (Suc j')
    with Cons.prems have "j' < length cs" "\<not> isalpha (cs ! j')" "cs ! j' \<noteq> CHR ''_''"
      "\<not> (0 < (i + 1) + j' \<and> isdigit (cs ! j'))" by simp_all
    from Cons.IH[OF this] show ?thesis by simp
  qed
qed

text \<open>
  C8. A name with a character that is neither an ASCII letter nor an underscore, and that is
  not a digit after the first position, is returned wrapped in double quotes with every
  double-quote character inside it doubled (the \<^verbatim>\<open>%w\<close> conversion, \<^const>\<open>fmt_w\<close>). This covers
  every name with a character other than a letter, a digit or an underscore, and every name
  that starts with a digit.
\<close>

theorem safeId_quotes_unsafe_names:
  assumes "i < length zId" and "\<not> isalpha (zId ! i)" and "zId ! i \<noteq> CHR ''_''"
    and "\<not> (0 < i \<and> isdigit (zId ! i))"
  shows "safeId zId = [CHR 0x22] @ fmt_w zId @ [CHR 0x22]"
proof -
  from assms have "safeId_scan zId 0 0 = None" by (intro safeId_scan_None[of i]) simp_all
  moreover from assms(1) have "zId \<noteq> []" by auto
  ultimately show ?thesis by (simp add: safeId_def quoted_w_def)
qed

theorem safeId_quotes_unsafe_names_witness:
  "(1::nat) < length ''a b'' \<and> \<not> isalpha (''a b'' ! 1) \<and> ''a b'' ! 1 \<noteq> CHR ''_''
   \<and> \<not> (0 < (1::nat) \<and> isdigit (''a b'' ! 1))
   \<and> safeId ''a b'' = [CHR 0x22] @ ''a b'' @ [CHR 0x22]
   \<and> safeId [CHR ''x'', CHR 0x22, CHR ''y''] = [CHR 0x22, CHR ''x'', CHR 0x22, CHR 0x22, CHR ''y'', CHR 0x22]
   \<and> safeId ''9lives'' = [CHR 0x22] @ ''9lives'' @ [CHR 0x22]
   \<and> safeId ''t1'' = ''t1''"
  using safeId_quotes_unsafe_names [of 1 "''a b''"]
  by (simp add: safeId_def quoted_w_def fmt_w_def isalpha_def isupper_def islower_def isdigit_def)

lemma stricmp_Cons:
  "sqlite3_stricmp (c # l) (x # r) =
     (if int (UpperToLower c) - int (UpperToLower x) \<noteq> 0
      then int (UpperToLower c) - int (UpperToLower x)
      else sqlite3_stricmp l r)"
  by simp

lemma stricmp_fold:
  "map UpperToLower a = map UpperToLower a' \<Longrightarrow> sqlite3_stricmp k a = sqlite3_stricmp k a'"
proof (induction k arbitrary: a a')
  case Nil
  then show ?case by (cases a; cases a') auto
next
  case (Cons c l)
  show ?case
  proof (cases a)
    case Nil
    with Cons.prems show ?thesis by simp
  next
    case (Cons x r)
    with Cons.prems obtain x' r' where a': "a' = x' # r'" "UpperToLower x = UpperToLower x'"
      "map UpperToLower r = map UpperToLower r'" by (cases a') auto
    from Cons.IH[OF a'(3)] Cons a'(1,2) show ?thesis by (simp only: stricmp_Cons)
  qed
qed

lemma UpperToLower_toupper: "UpperToLower (toupper c) = UpperToLower c"
proof (cases "islower c")
  case True
  then have n: "97 \<le> (of_char c :: nat)" "(of_char c :: nat) \<le> 122" by (simp_all add: islower_def)
  moreover have "(of_char c :: nat) < 256" by simp
  ultimately have "(of_char (char_of (of_char c - 32 :: nat)) :: nat) = of_char c - 32"
    by (simp add: of_char_of)
  moreover from n have "65 \<le> (of_char c :: nat) - 32" "(of_char c :: nat) - 32 \<le> 90"
    "(of_char c :: nat) - 32 + 32 = of_char c" "\<not> (of_char c :: nat) \<le> 90" by arith+
  ultimately show ?thesis using True
    by (simp add: UpperToLower_def toupper_def isupper_def)
next
  case False
  then show ?thesis by (simp add: toupper_def)
qed


lemma safeId_search_fold:
  "map UpperToLower zId = map UpperToLower zId' \<Longrightarrow>
   safeId_search zId lwr upr = safeId_search zId' lwr upr"
proof (induction zId lwr upr rule: safeId_search.induct)
  case (1 zId lwr upr)
  note eq = stricmp_fold[OF "1.prems"]
  show ?case
  proof (cases "lwr \<le> upr")
    case True
    define mid where "mid = (lwr + upr) div 2"
    define c where "c = sqlite3_stricmp (azKeywords ! nat mid) zId"
    have c': "sqlite3_stricmp (azKeywords ! nat mid) zId' = c" by (simp add: c_def eq)
    show ?thesis
    proof (cases "c = 0")
      case True
      with \<open>lwr \<le> upr\<close> c' show ?thesis
        by (subst (1 2) safeId_search.simps) (simp add: Let_def mid_def[symmetric] c_def[symmetric])
    next
      case False
      note nz = this
      show ?thesis
      proof (cases "c < 0")
        case True
        from "1.IH"(1)[OF \<open>lwr \<le> upr\<close> mid_def c_def nz True "1.prems"]
        show ?thesis using \<open>lwr \<le> upr\<close> c' nz True
          by (subst (1 2) safeId_search.simps) (simp add: Let_def mid_def[symmetric] c_def[symmetric])
      next
        case False
        from "1.IH"(2)[OF \<open>lwr \<le> upr\<close> mid_def c_def nz False "1.prems"]
        show ?thesis using \<open>lwr \<le> upr\<close> c' nz False
          by (subst (1 2) safeId_search.simps) (simp add: Let_def mid_def[symmetric] c_def[symmetric])
      qed
    qed
  next
    case False
    then show ?thesis by (subst (1 2) safeId_search.simps) simp
  qed
qed

lemma keywords_found: "list_all (\<lambda>k. safeId_search k 0 (int (length azKeywords) - 1)) azKeywords"
  by code_simp

lemma keywords_chars: "list_all (\<lambda>k. k \<noteq> [] \<and> list_all (\<lambda>c. isupper c \<or> c = CHR ''_'') k) azKeywords"
  by (simp add: azKeywords_def isupper_def)


lemma toupper_alpha:
  assumes "isupper (toupper c) \<or> toupper c = CHR ''_''"
  shows "isalpha c \<or> c = CHR ''_''"
proof (cases "islower c")
  case True
  then show ?thesis by (simp add: isalpha_def)
next
  case False
  with assms show ?thesis by (simp add: toupper_def isalpha_def)
qed

lemma safeId_scan_alpha:
  "\<forall>c \<in> set zs. isalpha c \<or> c = CHR ''_'' \<Longrightarrow> safeId_scan zs i x = Some x"
  by (induction zs arbitrary: i) auto

lemma fmt_w_id: "CHR 0x22 \<notin> set zs \<Longrightarrow> fmt_w zs = zs"
  by (induction zs) (auto simp: fmt_w_def)

lemma keyword_quoted:
  assumes k: "k \<in> set azKeywords" and m: "map toupper zId = k"
  shows "safeId zId = [CHR 0x22] @ zId @ [CHR 0x22]"
proof -
  from k keywords_chars have kc: "k \<noteq> []" "\<forall>c \<in> set k. isupper c \<or> c = CHR ''_''"
    by (auto simp: list_all_iff)
  from kc(1) m have ne: "zId \<noteq> []" by auto
  have al: "\<forall>c \<in> set zId. isalpha c \<or> c = CHR ''_''"
  proof
    fix c assume "c \<in> set zId"
    with m have "toupper c \<in> set k" by auto
    with kc(2) have "isupper (toupper c) \<or> toupper c = CHR ''_''" by blast
    then show "isalpha c \<or> c = CHR ''_''" by (rule toupper_alpha)
  qed
  then have sc: "safeId_scan zId 0 0 = Some 0" by (rule safeId_scan_alpha)
  have "CHR 0x22 \<notin> set zId"
  proof
    assume "CHR 0x22 \<in> set zId"
    with al show False by (auto simp: isalpha_def isupper_def islower_def)
  qed
  then have fw: "fmt_w zId = zId" by (rule fmt_w_id)
  have "map UpperToLower zId = map UpperToLower k"
    using m by (auto simp: UpperToLower_toupper)
  from safeId_search_fold[OF this]
  have "safeId_search zId 0 (int (length azKeywords) - 1) = safeId_search k 0 (int (length azKeywords) - 1)" .
  also from k keywords_found have "\<dots> = True" by (auto simp: list_all_iff)
  finally show ?thesis using ne sc fw by (simp add: safeId_def quoted_w_def)
qed

lemma safeId_order: "safeId ''order'' = [CHR 0x22] @ ''order'' @ [CHR 0x22]"
  by (rule keyword_quoted[of "''ORDER''"]) (simp_all add: azKeywords_def toupper_def islower_def char_of_eq_iff take_bit_eq_mod)

lemma safeId_select: "safeId ''select'' = [CHR 0x22] @ ''select'' @ [CHR 0x22]"
  by (rule keyword_quoted[of "''SELECT''"]) (simp_all add: azKeywords_def toupper_def islower_def char_of_eq_iff take_bit_eq_mod)

lemma safeId_a: "safeId ''a'' = ''a''"
  by (simp add: safeId_def isalpha_def isupper_def islower_def safeId_search.simps azKeywords_def
      UpperToLower_def Let_def)

lemma safeId_quoted_select:
  "safeId ([CHR 0x22] @ ''select'' @ [CHR 0x22])
   = [CHR 0x22, CHR 0x22, CHR 0x22] @ ''select'' @ [CHR 0x22, CHR 0x22, CHR 0x22]"
  by (simp add: safeId_def isalpha_def isupper_def islower_def isdigit_def quoted_w_def fmt_w_def)

text \<open>
  C7. \<^const>\<open>safeId\<close> does wrap every keyword in double quotes (lemma \<open>keyword_quoted\<close>, and
  \<open>safeId_order\<close>, \<open>safeId_select\<close> for the two names of the claim). But not every emitted
  statement shows the names that way: \<^verbatim>\<open>columnNames\<close> stores the quoted names in \<^verbatim>\<open>az2[]\<close>, and
  the \<^verbatim>\<open>ALTER TABLE\<close> loop of \<^verbatim>\<open>diff_one_table\<close> passes \<^verbatim>\<open>az2[n2]\<close> through \<^verbatim>\<open>safeId\<close> a
  second time. For a table \<^verbatim>\<open>order\<close> with key column \<^verbatim>\<open>a\<close> and a column \<^verbatim>\<open>select\<close> that only
  the primary database has, the statement names the column with three double quotes on each
  side.
\<close>

theorem alter_table_quotes_twice:
  "columnNames_fill True [(''a'', 1), (''select'', 0)] (replicate 1 None)
     = [Some ''a'', Some ([CHR 0x22] @ ''select'' @ [CHR 0x22])]
   \<and> alter_add_columns (safeId ''order'')
       (drop 1 (columnNames_fill True [(''a'', 1), (''select'', 0)] (replicate 1 None)))
     = ''ALTER TABLE '' @ [CHR 0x22] @ ''order'' @ [CHR 0x22] @ '' ADD COLUMN '' @
       [CHR 0x22, CHR 0x22, CHR 0x22] @ ''select'' @ [CHR 0x22, CHR 0x22, CHR 0x22] @ '';'' @ [CHR 0x0A]"
  using safeId_order safeId_select safeId_a safeId_quoted_select by simp


section \<open>Transactions and the value a pass returns\<close>

lemma option_name_transaction:
  "a \<noteq> [] \<Longrightarrow> hd a = CHR ''-'' \<Longrightarrow> option_name a = ''transaction'' \<Longrightarrow>
   a = ''--transaction'' \<or> a = ''-transaction''"
  by (cases a; cases "tl a") (auto simp: option_name_def Let_def split: if_splits)

lemma parse_args_transaction:
  "parse_args strtol args g dbPath = Inr (g', p) \<Longrightarrow>
   neverUseTransaction g' = neverUseTransaction g
   \<and> (useTransaction g' = useTransaction g
      \<or> (useTransaction g' = 1 \<and> (''--transaction'' \<in> set args \<or> ''-transaction'' \<in> set args)))"
proof (induction strtol args g dbPath rule: parse_args.induct)
  case (1 strtol g dbPath)
  then show ?case by simp
next
  case (2 strtol a rest g dbPath)
  show ?case
  proof (cases "a \<noteq> [] \<and> hd a = CHR ''-''")
    case False
    with "2.prems" have "dbPath = None" "parse_args strtol rest g (Some a) = Inr (g', p)"
      by (auto split: if_splits)
    from "2.IH"(9)[OF False this] show ?thesis by auto
  next
    case True
    define z where "z = option_name a"
    have a: "z = ''transaction'' \<Longrightarrow> a = ''--transaction'' \<or> a = ''-transaction''"
      using True option_name_transaction[of a] by (simp add: z_def)
    note ih = "2.IH"(1-8)[OF True z_def]
    have eq: "parse_args strtol (a # rest) g dbPath =
       (if z = ''event'' then
          (case rest of
             [] \<Rightarrow> Inl (Exit1 (''missing argument to '' @ a))
           | v # rest' \<Rightarrow>
               if v = ''modify'' then parse_args strtol rest' (g\<lparr>FSEvent := IN_MODIFY\<rparr>) dbPath
               else if v = ''close_write'' then parse_args strtol rest' g dbPath
               else Inl (Exit1 (''illegal argument '' @ a)))
        else if z = ''debug'' then
          (case rest of
             [] \<Rightarrow> Inl (Exit1 (''missing argument to '' @ a))
           | v # rest' \<Rightarrow> parse_args strtol rest' (g\<lparr>fDebug := strtol v\<rparr>) dbPath)
        else if z = ''help'' then Inl Exit0
        else if z = ''lib'' \<or> z = ''L'' then
          (case rest of
             [] \<Rightarrow> Inl (Exit1 (''missing argument to '' @ a))
           | v # rest' \<Rightarrow> parse_args strtol rest' (g\<lparr>azExt := azExt g @ [v]\<rparr>) dbPath)
        else if z = ''primarykey'' then parse_args strtol rest (g\<lparr>bSchemaPK := 1\<rparr>) dbPath
        else if z = ''rbu'' then parse_args strtol rest (g\<lparr>rbuTable := 1\<rparr>) dbPath
        else if z = ''transaction'' then parse_args strtol rest (g\<lparr>useTransaction := 1\<rparr>) dbPath
        else if z = ''verbose'' \<or> z = ''v'' then parse_args strtol rest (g\<lparr>verbose := 1\<rparr>) dbPath
        else Inl (Exit1 (''unknown option: '' @ a)))"
      using True by (simp add: Let_def z_def)
    note p = "2.prems"[unfolded eq]
    consider (ev) "z = ''event''" | (db) "z \<noteq> ''event''" "z = ''debug''"
      | (lib) "z \<noteq> ''event''" "z \<noteq> ''debug''" "z \<noteq> ''help''" "z = ''lib'' \<or> z = ''L''"
      | (pk) "z \<noteq> ''event''" "z \<noteq> ''debug''" "z \<noteq> ''help''" "\<not> (z = ''lib'' \<or> z = ''L'')" "z = ''primarykey''"
      | (rbu) "z \<noteq> ''event''" "z \<noteq> ''debug''" "z \<noteq> ''help''" "\<not> (z = ''lib'' \<or> z = ''L'')"
          "z \<noteq> ''primarykey''" "z = ''rbu''"
      | (tx) "z \<noteq> ''event''" "z \<noteq> ''debug''" "z \<noteq> ''help''" "\<not> (z = ''lib'' \<or> z = ''L'')"
          "z \<noteq> ''primarykey''" "z \<noteq> ''rbu''" "z = ''transaction''"
      | (vb) "z \<noteq> ''event''" "z \<noteq> ''debug''" "z \<noteq> ''help''" "\<not> (z = ''lib'' \<or> z = ''L'')"
          "z \<noteq> ''primarykey''" "z \<noteq> ''rbu''" "z \<noteq> ''transaction''" "z = ''verbose'' \<or> z = ''v''"
      | (other) "z = ''help'' \<or> (z \<noteq> ''event'' \<and> z \<noteq> ''debug'' \<and> \<not> (z = ''lib'' \<or> z = ''L'')
          \<and> z \<noteq> ''primarykey'' \<and> z \<noteq> ''rbu'' \<and> z \<noteq> ''transaction'' \<and> \<not> (z = ''verbose'' \<or> z = ''v''))"
      by argo
    then show ?thesis
    proof cases
      case ev
      with p obtain v rest' where r: "rest = v # rest'" by (cases rest) auto
      show ?thesis
      proof (cases "v = ''modify''")
        case True
        with p ev r have "parse_args strtol rest' (g\<lparr>FSEvent := IN_MODIFY\<rparr>) dbPath = Inr (g', p)" by simp
        from ih(1)[OF ev r True this] r show ?thesis by auto
      next
        case False
        with p ev r have c: "v = ''close_write''" "parse_args strtol rest' g dbPath = Inr (g', p)"
          by (auto split: if_splits)
        from ih(2)[OF ev r False c] r show ?thesis by auto
      qed
    next
      case db
      with p obtain v rest' where r: "rest = v # rest'"
        and q: "parse_args strtol rest' (g\<lparr>fDebug := strtol v\<rparr>) dbPath = Inr (g', p)"
        by (cases rest) auto
      from ih(3)[OF db r q] r show ?thesis by auto
    next
      case lib
      with p obtain v rest' where r: "rest = v # rest'"
        and q: "parse_args strtol rest' (g\<lparr>azExt := azExt g @ [v]\<rparr>) dbPath = Inr (g', p)"
        by (cases rest) auto
      from ih(4)[OF lib r q] r show ?thesis by auto
    next
      case pk
      with p have q: "parse_args strtol rest (g\<lparr>bSchemaPK := 1\<rparr>) dbPath = Inr (g', p)" by simp
      from ih(5)[OF pk q] show ?thesis by auto
    next
      case rbu
      with p have q: "parse_args strtol rest (g\<lparr>rbuTable := 1\<rparr>) dbPath = Inr (g', p)" by simp
      from ih(6)[OF rbu q] show ?thesis by auto
    next
      case tx
      with p have q: "parse_args strtol rest (g\<lparr>useTransaction := 1\<rparr>) dbPath = Inr (g', p)" by simp
      from ih(7)[OF tx q] a[OF tx(7)] show ?thesis by auto
    next
      case vb
      with p have q: "parse_args strtol rest (g\<lparr>verbose := 1\<rparr>) dbPath = Inr (g', p)" by simp
      from ih(8)[OF vb q] show ?thesis by auto
    next
      case other
      with p show ?thesis by (auto split: if_splits)
    qed
  qed
qed


lemma run_tables_append:
  "run_tables xDiff names out =
     (case run_tables xDiff names [] of Inl e \<Rightarrow> Inl e | Inr body \<Rightarrow> Inr (out @ body))"
proof (induction names arbitrary: out)
  case Nil
  show ?case by simp
next
  case (Cons zTab rest)
  show ?case
  proof (cases "xDiff zTab")
    case (Inl e)
    then show ?thesis by simp
  next
    case (Inr emitted)
    with Cons.IH[of "out @ emitted"] Cons.IH[of emitted] show ?thesis
      by (auto split: sum.splits)
  qed
qed

lemma run_tables_empty:
  "\<forall>zTab \<in> set names. xDiff zTab = Inr [] \<Longrightarrow> run_tables xDiff names out = Inr out"
  by (induction names arbitrary: out) auto

lemma main_transaction:
  assumes "main strtol argv = Inr (g, dbPath)"
  shows "neverUseTransaction g = 0"
    and "''--transaction'' \<notin> set argv \<Longrightarrow> ''-transaction'' \<notin> set argv \<Longrightarrow> useTransaction g = 0"
proof -
  from assms obtain argv0 args p where
    a: "argv = argv0 # args"
    and q: "parse_args strtol args (g_initial\<lparr>zArgv0 := argv0, FSEvent := IN_CLOSE_WRITE\<rparr>) None = Inr (g, p)"
    by (auto simp: main_def split: list.splits sum.splits option.splits)
  note t = parse_args_transaction[OF q]
  from t show "neverUseTransaction g = 0" by (simp add: g_initial_def)
  assume "''--transaction'' \<notin> set argv" "''-transaction'' \<notin> set argv"
  with t a show "useTransaction g = 0" by (auto simp: g_initial_def)
qed

lemma sqlDiff_output:
  assumes "sqlDiff g env diff_one_table rbudiff_one_table = Inr (g', out, rv)"
    and "neverUseTransaction g = 0"
  shows "\<exists>body. run_tables (if rbuTable g \<noteq> 0 then rbudiff_one_table else diff_one_table)
                  (table_names env) [] = Inr body
          \<and> out = log_before env @ ''-- '' @ time_stamp env @ [CHR 0x0A] @
                  (if useTransaction g \<noteq> 0
                   then ''BEGIN TRANSACTION;'' @ [CHR 0x0A] @ body @ ''COMMIT;'' @ [CHR 0x0A]
                   else body)"
proof -
  define xDiff where "xDiff = (if rbuTable g \<noteq> 0 then rbudiff_one_table else diff_one_table)"
  define out2 where "out2 = log_before env @ ''-- '' @ time_stamp env @ [CHR 0x0A] @
     (if useTransaction g \<noteq> 0 then ''BEGIN TRANSACTION;'' @ [CHR 0x0A] else [])"
  from assms obtain out3 where
    r: "run_tables xDiff (table_names env) out2 = Inr out3"
    and o: "out = (if useTransaction g \<noteq> 0 then out3 @ ''COMMIT;'' @ [CHR 0x0A] else out3)"
    by (auto simp: sqlDiff_def Let_def xDiff_def out2_def split: if_splits sum.splits)
  from r obtain body where
    b: "run_tables xDiff (table_names env) [] = Inr body" "out3 = out2 @ body"
    by (subst (asm) run_tables_append) (auto split: sum.splits)
  with o show ?thesis by (auto simp: xDiff_def out2_def)
qed

lemma main_with_flag:
  "main (\<lambda>_. 0) [''repqlite'', ''--transaction'', ''/data'']
     = Inr (g_initial\<lparr>zArgv0 := ''repqlite'', FSEvent := IN_CLOSE_WRITE, useTransaction := 1\<rparr>, ''/data'')"
  by (simp add: main_def option_name_def)

lemma main_default:
  "main (\<lambda>_. 0) [''repqlite'', ''/data'']
     = Inr (g_initial\<lparr>zArgv0 := ''repqlite'', FSEvent := IN_CLOSE_WRITE\<rparr>, ''/data'')"
  by (simp add: main_def)

lemma sqlDiff_with_flag:
  "sqlDiff (g_initial\<lparr>zArgv0 := ''repqlite'', FSEvent := IN_CLOSE_WRITE, useTransaction := 1\<rparr>)
     \<lparr>open_ok = True, main_readable = True, ext_ok = (\<lambda>_. True), attach_ok = True,
      aux_readable = True, log_before = [], time_stamp = ''01 January 2026 12:00:00 AM'',
      table_names = [''t'']\<rparr>
     (\<lambda>_. Inr (''DROP TABLE t;'' @ [CHR 0x0A])) (\<lambda>_. Inr [])
   = Inr (g_initial\<lparr>zArgv0 := ''repqlite'', FSEvent := IN_CLOSE_WRITE, useTransaction := 1\<rparr>,
          ''-- 01 January 2026 12:00:00 AM'' @ [CHR 0x0A] @ ''BEGIN TRANSACTION;'' @ [CHR 0x0A]
            @ ''DROP TABLE t;'' @ [CHR 0x0A] @ ''COMMIT;'' @ [CHR 0x0A], 31)"
  by (simp add: g_initial_def sqlDiff_def Let_def)

text \<open>
  C5. The claim is that transactions are on unless \<^verbatim>\<open>never_use_transaction\<close> is set. They are
  off by default: with no \<^verbatim>\<open>--transaction\<close> argument \<^verbatim>\<open>g.useTransaction\<close> is still 0 when the
  passes start, and a pass then writes the statements of its tables right after the header
  line, with no \<^verbatim>\<open>BEGIN TRANSACTION;\<close> and no \<^verbatim>\<open>COMMIT;\<close>.
\<close>

theorem default_pass_has_no_transaction:
  "main (\<lambda>_. 0) [''repqlite'', ''/data'']
     = Inr (g_initial\<lparr>zArgv0 := ''repqlite'', FSEvent := IN_CLOSE_WRITE\<rparr>, ''/data'')
   \<and> neverUseTransaction (g_initial\<lparr>zArgv0 := ''repqlite'', FSEvent := IN_CLOSE_WRITE\<rparr>) = 0
   \<and> sqlDiff (g_initial\<lparr>zArgv0 := ''repqlite'', FSEvent := IN_CLOSE_WRITE\<rparr>)
        \<lparr>open_ok = True, main_readable = True, ext_ok = (\<lambda>_. True), attach_ok = True,
         aux_readable = True, log_before = [], time_stamp = ''01 January 2026 12:00:00 AM'',
         table_names = [''t'']\<rparr>
        (\<lambda>_. Inr (''DROP TABLE t;'' @ [CHR 0x0A])) (\<lambda>_. Inr [])
     = Inr (g_initial\<lparr>zArgv0 := ''repqlite'', FSEvent := IN_CLOSE_WRITE\<rparr>,
            ''-- 01 January 2026 12:00:00 AM'' @ [CHR 0x0A] @ ''DROP TABLE t;'' @ [CHR 0x0A], 31)"
  by (simp add: main_def g_initial_def sqlDiff_def Let_def)

text \<open>
  C5, as amended. The option parser never sets \<^verbatim>\<open>neverUseTransaction\<close>, and it leaves
  \<^verbatim>\<open>useTransaction\<close> at 0 unless an argument is \<^verbatim>\<open>--transaction\<close> (or \<^verbatim>\<open>-transaction\<close>). A pass
  writes the header line and then the statements of its tables, and puts
  \<^verbatim>\<open>BEGIN TRANSACTION;\<close> and \<^verbatim>\<open>COMMIT;\<close> around them exactly when \<^verbatim>\<open>useTransaction\<close> is set.
\<close>

theorem transaction_needs_flag:
  assumes "main strtol argv = Inr (g, dbPath)"
    and "sqlDiff g env diff_one_table rbudiff_one_table = Inr (g', out, rv)"
  shows "neverUseTransaction g = 0
    \<and> (''--transaction'' \<notin> set argv \<and> ''-transaction'' \<notin> set argv \<longrightarrow> useTransaction g = 0)
    \<and> (\<exists>body. run_tables (if rbuTable g \<noteq> 0 then rbudiff_one_table else diff_one_table)
                  (table_names env) [] = Inr body
          \<and> out = log_before env @ ''-- '' @ time_stamp env @ [CHR 0x0A] @
                  (if useTransaction g \<noteq> 0
                   then ''BEGIN TRANSACTION;'' @ [CHR 0x0A] @ body @ ''COMMIT;'' @ [CHR 0x0A]
                   else body))"
  using main_transaction[OF assms(1)] sqlDiff_output[OF assms(2)] by simp

theorem transaction_needs_flag_witness:
  "main (\<lambda>_. 0) [''repqlite'', ''--transaction'', ''/data'']
     = Inr (g_initial\<lparr>zArgv0 := ''repqlite'', FSEvent := IN_CLOSE_WRITE, useTransaction := 1\<rparr>, ''/data'')
   \<and> sqlDiff (g_initial\<lparr>zArgv0 := ''repqlite'', FSEvent := IN_CLOSE_WRITE, useTransaction := 1\<rparr>)
        \<lparr>open_ok = True, main_readable = True, ext_ok = (\<lambda>_. True), attach_ok = True,
         aux_readable = True, log_before = [], time_stamp = ''01 January 2026 12:00:00 AM'',
         table_names = [''t'']\<rparr>
        (\<lambda>_. Inr (''DROP TABLE t;'' @ [CHR 0x0A])) (\<lambda>_. Inr [])
     = Inr (g_initial\<lparr>zArgv0 := ''repqlite'', FSEvent := IN_CLOSE_WRITE, useTransaction := 1\<rparr>,
            ''-- 01 January 2026 12:00:00 AM'' @ [CHR 0x0A] @ ''BEGIN TRANSACTION;'' @ [CHR 0x0A]
              @ ''DROP TABLE t;'' @ [CHR 0x0A] @ ''COMMIT;'' @ [CHR 0x0A], 31)
   \<and> neverUseTransaction
        (g_initial\<lparr>zArgv0 := ''repqlite'', FSEvent := IN_CLOSE_WRITE, useTransaction := 1\<rparr>) = 0"
  using transaction_needs_flag [OF main_with_flag sqlDiff_with_flag] main_with_flag sqlDiff_with_flag
  by simp

lemma sqlDiff_null_diff:
  assumes "open_ok env" "main_readable env" "list_all (ext_ok env) (azExt g)" "attach_ok env"
    "aux_readable env"
    and "\<forall>zTab \<in> set (table_names env).
           (if rbuTable g \<noteq> 0 then rbudiff_one_table else diff_one_table) zTab = Inr []"
  shows "\<exists>g'. sqlDiff g env diff_one_table rbudiff_one_table =
           Inr (g',
                log_before env @ ''-- '' @ time_stamp env @ [CHR 0x0A] @
                  (if useTransaction g \<noteq> 0 \<and> neverUseTransaction g = 0
                   then ''BEGIN TRANSACTION;'' @ [CHR 0x0A] @ ''COMMIT;'' @ [CHR 0x0A] else []),
                if useTransaction g \<noteq> 0 \<and> neverUseTransaction g = 0
                then int (length (log_before env @ ''-- '' @ time_stamp env @ [CHR 0x0A]))
                else - 1)"
  using assms run_tables_empty[OF assms(6)]
  by (auto simp: sqlDiff_def Let_def)

text \<open>
  C4. With transactions off, a pass over two equal databases writes the header only and
  \<^verbatim>\<open>sqlDiff\<close> returns \<open>-1\<close>. With \<^verbatim>\<open>--transaction\<close> the same pass writes
  \<^verbatim>\<open>BEGIN TRANSACTION;\<close> and \<^verbatim>\<open>COMMIT;\<close> after the offset \<^verbatim>\<open>fstart\<close> was taken, so
  \<^verbatim>\<open>fend - fstart\<close> is not 0 and the pass returns \<^verbatim>\<open>fstart\<close> (here 31), not \<open>-1\<close>.
\<close>

theorem null_diff_with_transaction:
  "main (\<lambda>_. 0) [''repqlite'', ''--transaction'', ''/data'']
     = Inr (g_initial\<lparr>zArgv0 := ''repqlite'', FSEvent := IN_CLOSE_WRITE, useTransaction := 1\<rparr>, ''/data'')
   \<and> sqlDiff (g_initial\<lparr>zArgv0 := ''repqlite'', FSEvent := IN_CLOSE_WRITE, useTransaction := 1\<rparr>)
        \<lparr>open_ok = True, main_readable = True, ext_ok = (\<lambda>_. True), attach_ok = True,
         aux_readable = True, log_before = [], time_stamp = ''01 January 2026 12:00:00 AM'',
         table_names = [''t'']\<rparr> (\<lambda>_. Inr []) (\<lambda>_. Inr [])
     = Inr (g_initial\<lparr>zArgv0 := ''repqlite'', FSEvent := IN_CLOSE_WRITE, useTransaction := 1\<rparr>,
            ''-- 01 January 2026 12:00:00 AM'' @ [CHR 0x0A] @ ''BEGIN TRANSACTION;'' @ [CHR 0x0A]
              @ ''COMMIT;'' @ [CHR 0x0A], 31)
   \<and> sqlDiff (g_initial\<lparr>zArgv0 := ''repqlite'', FSEvent := IN_CLOSE_WRITE\<rparr>)
        \<lparr>open_ok = True, main_readable = True, ext_ok = (\<lambda>_. True), attach_ok = True,
         aux_readable = True, log_before = [], time_stamp = ''01 January 2026 12:00:00 AM'',
         table_names = [''t'']\<rparr> (\<lambda>_. Inr []) (\<lambda>_. Inr [])
     = Inr (g_initial\<lparr>zArgv0 := ''repqlite'', FSEvent := IN_CLOSE_WRITE\<rparr>,
            ''-- 01 January 2026 12:00:00 AM'' @ [CHR 0x0A], - 1)"
  by (simp add: main_def option_name_def g_initial_def sqlDiff_def Let_def)

section \<open>Replaying a patch\<close>

lemma fgets_shorter:
  "fgets num inp = Some (chunk, rest) \<Longrightarrow> 2 \<le> num \<Longrightarrow> length rest < length inp \<and> chunk \<noteq> []"
  by (cases inp) (auto simp: fgets_def Let_def min_def split: if_splits)

lemma local_getline_loop_returns:
  "length zLine < nLine \<Longrightarrow>
   \<exists>r rest. local_getline_loop zLine nLine inQuote inp = Some (r, rest) \<and> length rest \<le> length inp
      \<and> (r \<noteq> None \<longrightarrow> zLine \<noteq> [] \<or> length rest < length inp)"
proof (induction "length inp" arbitrary: inp zLine nLine inQuote rule: less_induct)
  case less
  define nLine' where "nLine' = (if nLine < length zLine + 100 then nLine * 2 + 100 else nLine)"
  have sz: "2 \<le> nLine' - length zLine" "length zLine + 100 \<le> nLine'"
    using less.prems by (auto simp: nLine'_def)
  show ?case
  proof (cases "fgets (nLine' - length zLine) inp")
    case None
    then show ?thesis
      by (subst local_getline_loop.simps) (auto simp: Let_def nLine'_def[symmetric])
  next
    case (Some p)
    obtain chunk rest where p: "p = (chunk, rest)" by (cases p)
    from fgets_shorter[OF Some[unfolded p] sz(1)] have sh: "length rest < length inp" "chunk \<noteq> []" by simp_all
    define seen where "seen = takeWhile (\<lambda>c. c \<noteq> CHR 0x00) chunk"
    define q where "q = foldl (\<lambda>q c. if c = CHR 0x22 then \<not> q else q) inQuote seen"
    have cl: "length chunk \<le> nLine' - length zLine - 1"
      using Some[unfolded p] by (auto simp: fgets_def Let_def split: if_splits)
    have "length seen \<le> length chunk" by (simp add: seen_def length_takeWhile_le)
    with cl sz have inv: "length (zLine @ seen) < nLine'" by simp
    show ?thesis
    proof (cases "zLine @ seen \<noteq> [] \<and> last (zLine @ seen) = CHR 0x0A \<and> \<not> q")
      case True
      with Some p sh show ?thesis
        by (subst local_getline_loop.simps)
          (auto simp: Let_def nLine'_def[symmetric] seen_def[symmetric] q_def[symmetric])
    next
      case False
      from less.hyps[OF sh(1) inv, of q] obtain r rest' where
        r: "local_getline_loop (zLine @ seen) nLine' q rest = Some (r, rest')" "length rest' \<le> length rest"
        by blast
      have eq: "local_getline_loop zLine nLine inQuote inp = local_getline_loop (zLine @ seen) nLine' q rest"
        using Some p False
        by (subst local_getline_loop.simps)
          (auto simp: Let_def nLine'_def[symmetric] seen_def[symmetric] q_def[symmetric])
      from r sh show ?thesis unfolding eq by auto
    qed
  qed
qed

lemma local_getline_returns:
  "\<exists>r rest. local_getline inp = Some (r, rest) \<and> length rest \<le> length inp
      \<and> (r \<noteq> None \<longrightarrow> length rest < length inp)"
  using local_getline_loop_returns[of "[]" 100 False inp] by (simp add: local_getline_def)

lemma sqlPatch_loop_replay:
  "length inp < k \<Longrightarrow>
   sqlPatch_loop exec db inp err =
     Some (case replay exec db (patch_lines k inp) of (db', e) \<Rightarrow> (db', err @ e))"
proof (induction k arbitrary: inp db err)
  case 0
  then show ?case by simp
next
  case (Suc k)
  from local_getline_returns[of inp] obtain r rest where
    g: "local_getline inp = Some (r, rest)" "length rest \<le> length inp"
       "r \<noteq> None \<longrightarrow> length rest < length inp" by blast
  obtain res db' where e: "exec db r = (res, db')" by (cases "exec db r")
  show ?case
  proof (cases r)
    case None
    with g e show ?thesis by (subst sqlPatch_loop.simps) simp
  next
    case (Some line)
    with g Suc.prems have "length rest < k" by simp
    from Suc.IH[OF this, of db' "err @ diagnostic res"] g e Some show ?thesis
      by (subst sqlPatch_loop.simps) (simp split: prod.splits)
  qed
qed

text \<open>
  Replaying a patch from byte offset \<open>sqlPos\<close> returns \<^verbatim>\<open>SQLITE_OK\<close> after handing every
  line that \<^verbatim>\<open>local_getline\<close> yields to \<^verbatim>\<open>sqlite3_exec\<close>, in order, whatever it answers for
  each of them: a failing line adds one diagnostic and the next line is executed all the
  same.
\<close>

lemma sqlPatch_runs_every_line:
  "sqlPatch exec sqlite3_errstr strerror_z (Some content) 0 db sqlPos =
     Some (case replay exec db (patch_lines (Suc (length (drop sqlPos content))) (drop sqlPos content))
           of (db', err) \<Rightarrow> (0, db', err))"
  using sqlPatch_loop_replay[of "drop sqlPos content" "Suc (length (drop sqlPos content))" exec db "[]"]
  by (simp add: sqlPatch_def split: prod.splits)

lemma local_getline_eval:
  "local_getline (''INSERT 1;'' @ [CHR 0x0A] @ ''BAD;'' @ [CHR 0x0A] @ ''INSERT 2;'' @ [CHR 0x0A])
     = Some (Some ''INSERT 1;'', ''BAD;'' @ [CHR 0x0A] @ ''INSERT 2;'' @ [CHR 0x0A])"
  "local_getline (''BAD;'' @ [CHR 0x0A] @ ''INSERT 2;'' @ [CHR 0x0A])
     = Some (Some ''BAD;'', ''INSERT 2;'' @ [CHR 0x0A])"
  "local_getline (''INSERT 2;'' @ [CHR 0x0A]) = Some (Some ''INSERT 2;'', [])"
  "local_getline [] = Some (None, [])"
  by (simp_all add: local_getline_def local_getline_loop.simps fgets_def Let_def
      cong: option.case_cong_weak prod.case_cong_weak)

lemma sqlPatch_runs_every_line_example:
  "sqlPatch (\<lambda>db line. (if line = Some ''BAD;'' then Some ''syntax error'' else None, db @ [line]))
     sqlite3_errstr strerror_z
     (Some (''-- 1'' @ [CHR 0x0A] @ ''INSERT 1;'' @ [CHR 0x0A] @ ''BAD;'' @ [CHR 0x0A] @ ''INSERT 2;'' @ [CHR 0x0A]))
     0 [] 5
   = Some (0, [Some ''INSERT 1;'', Some ''BAD;'', Some ''INSERT 2;'', None],
           [''sqlite3_exec: syntax error'' @ [CHR 0x0A]])"
  using sqlPatch_runs_every_line
    [of "\<lambda>db line. (if line = Some ''BAD;'' then Some ''syntax error'' else None, db @ [line])"
        sqlite3_errstr strerror_z
        "''-- 1'' @ [CHR 0x0A] @ ''INSERT 1;'' @ [CHR 0x0A] @ ''BAD;'' @ [CHR 0x0A] @ ''INSERT 2;'' @ [CHR 0x0A]"
        "[]" 5]
    local_getline_eval
  by (simp add: diagnostic_def)

lemma local_getline_glued:
  "local_getline (''INSERT INTO t VALUES(1,'' @ [CHR 0x27] @ ''a'' @ [CHR 0x22] @ ''b'' @ [CHR 0x27]
       @ '');'' @ [CHR 0x0A] @ ''INSERT INTO t VALUES(2,NULL);'' @ [CHR 0x0A])
     = Some (Some (''INSERT INTO t VALUES(1,'' @ [CHR 0x27] @ ''a'' @ [CHR 0x22] @ ''b'' @ [CHR 0x27]
       @ '');'' @ [CHR 0x0A] @ ''INSERT INTO t VALUES(2,NULL);'' @ [CHR 0x0A]), [])"
  by (simp add: local_getline_def local_getline_loop.simps fgets_def Let_def
      cong: option.case_cong_weak prod.case_cong_weak)

text \<open>
  Claim C9 says that every statement of the patch is executed, and that a failing statement
  never keeps the ones after it from being executed. It fails on a patch the program writes
  itself: \<^verbatim>\<open>printQuoted\<close> leaves a double quote inside a text value as it is,
  \<^verbatim>\<open>local_getline\<close> takes it for an opening quote and does not end the line at the
  newline, and the two \<^verbatim>\<open>INSERT\<close> statements below, replayed from the offset after the
  header line, reach \<^verbatim>\<open>sqlite3_exec\<close> as one string, in one call (the only other call
  is the last one, with the NULL pointer). Whatever
  \<^verbatim>\<open>sqlite3_exec\<close> does, the second statement is never handed to it on its own, and there
  is one diagnostic at most for the two of them.
\<close>

theorem sqlPatch_glues_statements:
  "sqlPatch exec sqlite3_errstr strerror_z
     (Some (''-- 1'' @ [CHR 0x0A]
            @ ''INSERT INTO t VALUES(1,'' @ [CHR 0x27] @ ''a'' @ [CHR 0x22] @ ''b'' @ [CHR 0x27]
            @ '');'' @ [CHR 0x0A] @ ''INSERT INTO t VALUES(2,NULL);'' @ [CHR 0x0A]))
     0 db 5
   = Some (case exec db
                  (Some (''INSERT INTO t VALUES(1,'' @ [CHR 0x27] @ ''a'' @ [CHR 0x22] @ ''b''
                         @ [CHR 0x27] @ '');'' @ [CHR 0x0A]
                         @ ''INSERT INTO t VALUES(2,NULL);'' @ [CHR 0x0A]))
           of (r, db') \<Rightarrow>
             (case exec db' None of (r', db'') \<Rightarrow> (0, db'', diagnostic r @ diagnostic r')))"
proof -
  define patch where "patch = ''INSERT INTO t VALUES(1,'' @ [CHR 0x27] @ ''a'' @ [CHR 0x22] @ ''b''
       @ [CHR 0x27] @ '');'' @ [CHR 0x0A] @ ''INSERT INTO t VALUES(2,NULL);'' @ [CHR 0x0A]"
  have g1: "local_getline patch = Some (Some patch, [])"
    unfolding patch_def by (rule local_getline_glued)
  have g2: "local_getline [] = Some (None, [])" by (rule local_getline_eval(4))
  obtain r db' where e1: "exec db (Some patch) = (r, db')" by (cases "exec db (Some patch)")
  obtain r' db'' where e2: "exec db' None = (r', db'')" by (cases "exec db' None")
  have l2: "sqlPatch_loop exec db' [] (diagnostic r) = Some (db'', diagnostic r @ diagnostic r')"
    by (subst sqlPatch_loop.simps) (simp add: g2 e2)
  have l1: "sqlPatch_loop exec db patch [] = Some (db'', diagnostic r @ diagnostic r')"
    by (subst sqlPatch_loop.simps) (simp add: g1 e1 l2)
  have d: "drop 5 (''-- 1'' @ [CHR 0x0A] @ patch) = patch" by simp
  have "sqlPatch exec sqlite3_errstr strerror_z (Some (''-- 1'' @ [CHR 0x0A] @ patch)) 0 db 5
        = Some (case exec db (Some patch) of (r, db') \<Rightarrow>
             (case exec db' None of (r', db'') \<Rightarrow> (0, db'', diagnostic r @ diagnostic r')))"
    unfolding sqlPatch_def d by (simp add: l1 e1 e2)
  then show ?thesis unfolding patch_def .
qed

section \<open>Decoding what the encoder wrote\<close>

lemma zValue_zDigits: "n < 64 \<Longrightarrow> zValue (zDigits ! n) = Some n"
proof -
  have "list_all (\<lambda>n. zValue (zDigits ! n) = Some n) [0..<64]"
    by code_simp
  then show "n < 64 \<Longrightarrow> zValue (zDigits ! n) = Some n"
    by (simp add: list_all_iff)
qed

lemma unat_and_63: "unat ((v::u32) AND 0x3f) = unat v mod 64"
proof -
  have "(v AND 0x3f) = take_bit 6 v"
    by (simp add: take_bit_eq_mask mask_eq_exp_minus_1)
  then show ?thesis by (simp add: unsigned_take_bit_eq take_bit_eq_mod unat_mod)
qed

lemma getInt_zBuf:
  "getInt (rev (putInt_zBuf v) @ R) acc = getInt R (acc * 64 ^ length (putInt_zBuf v) + unat v)"
proof (induction v arbitrary: R acc rule: putInt_zBuf.induct)
  case (1 v)
  show ?case
  proof (cases "v = 0")
    case True
    then show ?thesis by (simp add: putInt_zBuf.simps[of 0])
  next
    case False
    define d where "d = zDigits ! unat (v AND 0x3f)"
    have zb: "putInt_zBuf v = d # putInt_zBuf (drop_bit 6 v)"
      using False by (simp add: putInt_zBuf.simps[of v] d_def)
    have dv: "zValue d = Some (unat v mod 64)"
      unfolding d_def unat_and_63 by (rule zValue_zDigits) simp
    have "getInt (rev (putInt_zBuf v) @ R) acc
        = getInt (rev (putInt_zBuf (drop_bit 6 v)) @ (d # R)) acc" by (simp add: zb)
    also have "\<dots> = getInt (d # R) (acc * 64 ^ length (putInt_zBuf (drop_bit 6 v)) + unat (drop_bit 6 v))"
      by (rule "1.IH"[OF False])
    also have "\<dots> = getInt R ((acc * 64 ^ length (putInt_zBuf (drop_bit 6 v)) + unat v div 64) * 64 + unat v mod 64)"
      by (simp add: dv unat_drop_bit6)
    also have "(acc * 64 ^ length (putInt_zBuf (drop_bit 6 v)) + unat v div 64) * 64 + unat v mod 64
        = acc * 64 ^ length (putInt_zBuf v) + unat v"
      by (simp add: zb algebra_simps)
    finally show ?thesis .
  qed
qed

lemma getInt_stop: "R = [] \<or> zValue (hd R) = None \<Longrightarrow> getInt R v = (v, R)"
  by (cases R) auto

lemma getInt_putInt:
  assumes "R = [] \<or> zValue (hd R) = None"
  shows "getInt (putInt v @ R) 0 = (unat v, R)"
proof (cases "v = 0")
  case True
  then show ?thesis using getInt_stop[OF assms] by (simp add: putInt_def zValue_def)
next
  case False
  then show ?thesis using getInt_zBuf[of v R 0] getInt_stop[OF assms] by (simp add: putInt_def)
qed

lemma Decodes_Nil: "Decodes zSrc [] []"
  by (simp add: Decodes_def)

lemma Decodes_append:
  "Decodes zSrc D1 o1 \<Longrightarrow> Decodes zSrc D2 o2 \<Longrightarrow> Decodes zSrc (D1 @ D2) (o1 @ o2)"
  by (simp add: Decodes_def)

lemma u32_unat_of_nat: "n < 2 ^ 32 \<Longrightarrow> unat (of_nat n :: u32) = n"
  by (simp add: unat_of_nat)

lemma zValue_marks:
  "zValue (CHR '':'') = None" "zValue (CHR ''@'') = None" "zValue (CHR '','') = None"
  "zValue (CHR '';'') = None" "zValue (CHR 0x0A) = None"
  by (simp_all add: zValue_def)

lemma Decodes_literal:
  assumes "length x < 2 ^ 32"
  shows "Decodes zSrc (putInt (of_nat (length x)) @ '':'' @ x) x"
proof -
  have "delta_commands zSrc ((putInt (of_nat (length x)) @ '':'' @ x) @ rest) acc
        = delta_commands zSrc rest (acc @ x)" for rest acc
  proof -
    have g: "getInt (putInt (of_nat (length x)) @ (CHR '':'' # x @ rest)) 0
             = (length x, CHR '':'' # x @ rest)"
      using getInt_putInt[of "CHR '':'' # x @ rest" "of_nat (length x)"] assms
      by (simp add: zValue_marks u32_unat_of_nat)
    show ?thesis
      by (subst delta_commands.simps) (simp add: g Let_def)
  qed
  then show ?thesis by (simp add: Decodes_def)
qed

lemma Decodes_copy:
  assumes "0 < cnt" "cnt < 2 ^ 32" "ofst < 2 ^ 32" "ofst + cnt \<le> length zSrc"
  shows "Decodes zSrc (putInt (of_nat cnt) @ ''@'' @ putInt (of_nat ofst) @ '','')
           (take cnt (drop ofst zSrc))"
proof -
  have "delta_commands zSrc ((putInt (of_nat cnt) @ ''@'' @ putInt (of_nat ofst) @ '','') @ rest) acc
        = delta_commands zSrc rest (acc @ take cnt (drop ofst zSrc))" for rest acc
  proof -
    have g1: "getInt (putInt (of_nat cnt) @ (CHR ''@'' # putInt (of_nat ofst) @ CHR '','' # rest)) 0
             = (cnt, CHR ''@'' # putInt (of_nat ofst) @ CHR '','' # rest)"
      using getInt_putInt[of "CHR ''@'' # putInt (of_nat ofst) @ CHR '','' # rest" "of_nat cnt"] assms
      by (simp add: zValue_marks u32_unat_of_nat)
    have g2: "getInt (putInt (of_nat ofst) @ (CHR '','' # rest)) 0 = (ofst, CHR '','' # rest)"
      using getInt_putInt[of "CHR '','' # rest" "of_nat ofst"] assms
      by (simp add: zValue_marks u32_unat_of_nat)
    show ?thesis
      using assms by (subst delta_commands.simps) (simp add: g1 g2 Let_def)
  qed
  then show ?thesis by (simp add: Decodes_def)
qed

lemma delta_commands_checksum:
  "delta_commands zSrc (putInt ck @ '';'') acc = Some (acc, unat ck)"
proof -
  have "getInt (putInt ck @ [CHR '';'']) 0 = (unat ck, [CHR '';''])"
    using getInt_putInt[of "[CHR '';'']" ck] by (simp add: zValue_marks)
  then show ?thesis by (subst delta_commands.simps) (simp add: Let_def)
qed

lemma candidate_matches:
  assumes c: "candidate zSrc zOut base i iBlock = Some (cnt, ofst, litsz, sz)"
    and bi: "base + i \<le> length zOut" and ib: "iBlock * 16 \<le> length zSrc"
  shows "ofst + cnt \<le> length zSrc \<and> base + litsz + cnt \<le> length zOut
         \<and> take cnt (drop ofst zSrc) = take cnt (drop (base + litsz) zOut)"
proof -
  define iSrc where "iSrc = iBlock * 16"
  define j where "j = match_fwd zSrc zOut iSrc (base + i) 0"
  define m where "m = match_bwd zSrc zOut iSrc (base + i) i 1"
  define k where "k = m - 1"
  have jb: "j \<le> length zOut - (base + i)" "j \<le> length zSrc - iSrc"
    using match_fwd_bounds[of 0 zSrc zOut iSrc "base + i"] by (simp_all add: j_def)
  have mb: "1 \<le> m" "m \<le> max 1 (i + 1)" "m \<le> max 1 iSrc"
    using match_bwd_bounds[of 1 zSrc zOut iSrc "base + i" i] by (simp_all add: m_def)
  then have kb: "k \<le> i" "k \<le> iSrc" by (auto simp: k_def max_def split: if_splits)
  from c have r: "cnt = j + k" "ofst = iSrc - k" "litsz = i - k"
    by (auto simp: candidate_def Let_def j_def k_def m_def iSrc_def split: option.splits)
  have fw: "zSrc ! (iSrc + t) = zOut ! (base + i + t)" if "t < j" for t
    using match_fwd_eq[of t zSrc zOut iSrc "base + i" 0] that by (simp add: j_def)
  have bw: "zSrc ! (iSrc - t) = zOut ! (base + i - t)" if "1 \<le> t" "t \<le> k" for t
    using match_bwd_eq[of 1 t zSrc zOut iSrc "base + i" i] that by (simp add: k_def m_def)
  have l1: "ofst + cnt \<le> length zSrc" using r jb kb ib by (simp add: iSrc_def)
  have l2: "base + litsz + cnt \<le> length zOut" using r jb kb bi by simp
  have "take cnt (drop ofst zSrc) = take cnt (drop (base + litsz) zOut)"
  proof (rule nth_equalityI)
    show "length (take cnt (drop ofst zSrc)) = length (take cnt (drop (base + litsz) zOut))"
      using l1 l2 by simp
  next
    fix u assume "u < length (take cnt (drop ofst zSrc))"
    then have u: "u < cnt" by simp
    have "zSrc ! (ofst + u) = zOut ! (base + litsz + u)"
    proof (cases "u < k")
      case True
      then have "1 \<le> k - u" "k - u \<le> k" by simp_all
      from bw[OF this] True kb r show ?thesis by simp
    next
      case False
      with u r have "u - k < j" by simp
      from fw[OF this] False kb r show ?thesis by simp
    qed
    with u l1 l2 show "take cnt (drop ofst zSrc) ! u = take cnt (drop (base + litsz) zOut) ! u"
      by simp
  qed
  with l1 l2 show ?thesis by simp
qed

lemma remember_matches:
  assumes "candidate zSrc zOut base i iBlock = Some c" and "base + i \<le> length zOut"
    and "iBlock * 16 \<le> length zSrc" and "matches zSrc zOut base best"
  shows "matches zSrc zOut base (remember c best)"
proof -
  obtain cnt ofst litsz sz where c: "c = (cnt, ofst, litsz, sz)" by (cases c) auto
  from candidate_matches[OF assms(1)[unfolded c] assms(2,3)] assms(4) show ?thesis
    by (auto simp: remember_def c matches_def)
qed

lemma chain_walk_matches:
  assumes "index_ok nHash collide landmark" and "nHash * 16 \<le> length zSrc"
    and "base + i \<le> length zOut"
  shows "chain_walk zSrc zOut collide base i limit iBlock best = Some best' \<Longrightarrow> iBlock < int nHash
   \<Longrightarrow> matches zSrc zOut base best \<Longrightarrow> matches zSrc zOut base best'"
proof (induction limit arbitrary: iBlock best)
  case 0
  then show ?case by simp
next
  case (Suc limit)
  show ?case
  proof (cases "0 \<le> iBlock")
    case True
    with Suc.prems(1) obtain c where
      c: "candidate zSrc zOut base i (nat iBlock) = Some c"
      and w: "chain_walk zSrc zOut collide base i limit (collide ! nat iBlock) (remember c best) = Some best'"
      by (auto split: option.splits)
    from True Suc.prems(2) have n: "nat iBlock < nHash" by simp
    with assms(2) have ib: "nat iBlock * 16 \<le> length zSrc" by simp
    from n assms(1) have nx: "collide ! nat iBlock < int nHash" by (simp add: index_ok_def)
    from Suc.IH[OF w nx remember_matches[OF c assms(3) ib Suc.prems(3)]] show ?thesis .
  next
    case False
    with Suc.prems show ?thesis by simp
  qed
qed

lemma scan_decodes:
  assumes ok: "index_ok nHash collide landmark" and n16: "nHash * 16 \<le> length zSrc" and np: "0 < nHash"
    and ls: "length zSrc < 2 ^ 32" and lo: "length zOut < 2 ^ 32"
  shows "scan sc zSrc zOut nHash collide landmark base i h = Some (base', out) \<Longrightarrow>
   base + i + 16 \<le> length zOut \<Longrightarrow> Decodes zSrc out (take (base' - base) (drop base zOut))"
  using assms
proof (induction sc zSrc zOut nHash collide landmark base i h rule: scan.induct)
  case (1 sc zSrc zOut nHash collide landmark base i h)
  define iBlock where "iBlock = landmark ! (unat (hash_32bit h) mod nHash)"
  from "1.prems"(3,5) have ib: "iBlock < int nHash" by (simp add: iBlock_def index_ok_def)
  from "1.prems"(1) obtain bestCnt bestOfst bestLitsz where
    w: "chain_walk zSrc zOut collide base i 250 iBlock (0, 0, 0) = Some (bestCnt, bestOfst, bestLitsz)"
    by (subst (asm) scan.simps) (auto simp: Let_def iBlock_def split: option.splits)
  have m0: "matches zSrc zOut base (0, 0, 0)" by (simp add: matches_def)
  from "1.prems"(2) have bi: "base + i \<le> length zOut" by simp
  note mt = chain_walk_matches[OF "1.prems"(3,4) bi w ib m0]
  show ?case
  proof (cases "0 < bestCnt")
    case True
    with "1.prems"(1) w have
      b: "base' = base + bestLitsz + bestCnt"
      and o: "out = (if 0 < bestLitsz
                      then putInt (of_nat bestLitsz) @ '':'' @ take bestLitsz (drop base zOut)
                      else []) @
                     putInt (of_nat bestCnt) @ ''@'' @ putInt (of_nat bestOfst) @ '',''"
      by (subst (asm) scan.simps; simp add: Let_def iBlock_def)+
    from mt True have
      v: "bestOfst + bestCnt \<le> length zSrc" "base + bestLitsz + bestCnt \<le> length zOut"
         "take bestCnt (drop bestOfst zSrc) = take bestCnt (drop (base + bestLitsz) zOut)"
      by (auto simp: matches_def)
    have lit: "Decodes zSrc (if 0 < bestLitsz
                      then putInt (of_nat bestLitsz) @ '':'' @ take bestLitsz (drop base zOut)
                      else []) (take bestLitsz (drop base zOut))"
    proof (cases "0 < bestLitsz")
      case True
      have len: "length (take bestLitsz (drop base zOut)) = bestLitsz" using v(2) by simp
      have "length (take bestLitsz (drop base zOut)) < 2 ^ 32" using len v(2) "1.prems"(7) by simp
      from Decodes_literal[OF this, of zSrc] True show ?thesis by (simp only: len if_True)
    next
      case False
      then show ?thesis by (simp add: Decodes_Nil)
    qed
    have cp: "Decodes zSrc (putInt (of_nat bestCnt) @ ''@'' @ putInt (of_nat bestOfst) @ '','')
                (take bestCnt (drop bestOfst zSrc))"
      using True v(1) "1.prems"(6) by (intro Decodes_copy) simp_all
    have e1: "base' - base = bestLitsz + bestCnt" using b by simp
    have e2: "drop bestLitsz (drop base zOut) = drop (base + bestLitsz) zOut"
      by (simp add: add.commute)
    have "take (base' - base) (drop base zOut)
          = take bestLitsz (drop base zOut) @ take bestCnt (drop (base + bestLitsz) zOut)"
      by (simp only: e1 take_add e2)
    with Decodes_append[OF lit cp] o v(3) show ?thesis by simp
  next
    case False
    note nb = this
    show ?thesis
    proof (cases "length zOut \<le> base + i + 16")
      case True
      with "1.prems"(1) w nb have
        b: "base' = length zOut"
        and o: "out = putInt (of_nat (length zOut - base)) @ '':'' @ drop base zOut"
        by (subst (asm) scan.simps; simp add: Let_def iBlock_def)+
      have "length (drop base zOut) < 2 ^ 32" using "1.prems"(7) by simp
      from Decodes_literal[OF this, of zSrc] b o show ?thesis by simp
    next
      case False
      with "1.prems"(1) w nb have
        r: "scan sc zSrc zOut nHash collide landmark base (i + 1) (hash_next sc h (zOut ! (base + i + 16))) = Some (base', out)"
        by (subst (asm) scan.simps) (simp add: Let_def iBlock_def)
      from False have "base + (i + 1) + 16 \<le> length zOut" by simp
      from "1.IH"[OF refl refl w[unfolded iBlock_def] refl refl nb False r this "1.prems"(3-)]
      show ?thesis .
    qed
  qed
qed

lemma encode_loop_decodes:
  assumes ok: "index_ok nHash collide landmark" and n16: "nHash * 16 \<le> length zSrc" and np: "0 < nHash"
    and ls: "length zSrc < 2 ^ 32" and lo: "length zOut < 2 ^ 32"
  shows "encode_loop sc zSrc zOut nHash collide landmark base zDelta = Some (base', zDelta') \<Longrightarrow>
   base \<le> length zOut \<Longrightarrow>
   base \<le> base' \<and> base' \<le> length zOut \<and>
   (\<exists>out. zDelta' = zDelta @ out \<and> Decodes zSrc out (take (base' - base) (drop base zOut)))"
  using assms
proof (induction sc zSrc zOut nHash collide landmark base zDelta rule: encode_loop.induct)
  case (1 sc zSrc zOut nHash collide landmark base zDelta)
  show ?case
  proof (cases "base + 16 < length zOut")
    case True
    with "1.prems"(1) obtain b1 o1 where
      s: "scan sc zSrc zOut nHash collide landmark base 0 (hash_init sc (drop base zOut)) = Some (b1, o1)"
      and r: "encode_loop sc zSrc zOut nHash collide landmark b1 (zDelta @ o1) = Some (base', zDelta')"
      by (subst (asm) encode_loop.simps) (auto split: option.splits)
    from True have b0: "base + 0 + 16 \<le> length zOut" by simp
    from scan_size[OF s b0] have b1: "b1 \<le> length zOut" "base < b1" by simp_all
    note d1 = scan_decodes[OF "1.prems"(3-) s b0]
    from "1.IH"[OF True s refl r b1(1) "1.prems"(3-)] obtain o2 where
      i: "b1 \<le> base'" "base' \<le> length zOut" "zDelta' = (zDelta @ o1) @ o2"
         "Decodes zSrc o2 (take (base' - b1) (drop b1 zOut))"
      by blast
    have "take (base' - base) (drop base zOut)
          = take (b1 - base) (drop base zOut) @ take (base' - b1) (drop b1 zOut)"
    proof -
      have "base' - base = (b1 - base) + (base' - b1)" using b1 i(1) by simp
      moreover have "drop (b1 - base) (drop base zOut) = drop b1 zOut" using b1 by simp
      ultimately show ?thesis by (simp only: take_add)
    qed
    with Decodes_append[OF d1 i(4)] have "Decodes zSrc (o1 @ o2) (take (base' - base) (drop base zOut))"
      by simp
    with i b1 show ?thesis by auto
  next
    case False
    with "1.prems" have "base' = base" "zDelta' = zDelta"
      by (subst (asm) encode_loop.simps; simp)+
    with "1.prems"(2) show ?thesis by (simp add: Decodes_Nil)
  qed
qed

text \<open>
  Below \<open>2\<^sup>3\<^sup>0\<close> bytes the round trip holds: for every source BLOB \<open>S\<close> and target BLOB
  \<open>T\<close> of fewer than \<open>2\<^sup>3\<^sup>0\<close> bytes, \<^verbatim>\<open>rbuDeltaCreate\<close> returns a delta; applying the
  delta to \<open>S\<close> reproduces \<open>T\<close> exactly, and its trailing checksum record is
  \<^verbatim>\<open>checksum(T)\<close>.
\<close>

lemma delta_round_trip:
  assumes ls: "length zSrc < 2 ^ 30" and lo: "length zOut < 2 ^ 30"
  shows "\<exists>zDelta. rbuDeltaCreate sc zSrc zOut = Some zDelta
           \<and> delta_apply zSrc zDelta = Some (zOut, unat (checksum zOut))"
proof -
  from lo have lo32: "length zOut < 2 ^ 32" by simp
  from ls have ls32: "length zSrc < 2 ^ 32" by simp
  have hd: "getInt (putInt (of_nat (length zOut)) @ (CHR 0x0A # R)) 0 = (length zOut, CHR 0x0A # R)" for R
    using getInt_putInt[of "CHR 0x0A # R" "of_nat (length zOut)"] lo32
    by (simp add: zValue_marks u32_unat_of_nat)
  have fin: "delta_apply zSrc (putInt (of_nat (length zOut)) @ [CHR 0x0A] @ body @ putInt (checksum zOut) @ '';'')
             = Some (zOut, unat (checksum zOut))" if "Decodes zSrc body zOut" for body
  proof -
    from that have "delta_commands zSrc (body @ putInt (checksum zOut) @ '';'') []
                    = Some (zOut, unat (checksum zOut))"
      by (simp add: Decodes_def delta_commands_checksum)
    then show ?thesis using hd[of "body @ putInt (checksum zOut) @ '';''"]
      by (simp add: delta_apply_def Let_def)
  qed
  show ?thesis
  proof (cases "length zSrc \<le> 16")
    case True
    have "Decodes zSrc (putInt (of_nat (length zOut)) @ '':'' @ zOut) zOut"
      by (rule Decodes_literal[OF lo32])
    from fin[OF this] True show ?thesis by (simp add: rbuDeltaCreate_def Let_def)
  next
    case False
    define nHash where "nHash = length zSrc div 16"
    obtain collide landmark where
      t: "build_index sc zSrc nHash 0 (replicate nHash (- 1), replicate nHash (- 1)) = (collide, landmark)"
      by (cases "build_index sc zSrc nHash 0 (replicate nHash (- 1), replicate nHash (- 1))") auto
    have "index_ok nHash (replicate nHash (- 1)) (replicate nHash (- 1))"
      by (simp add: index_ok_def)
    from build_index_ok[OF this nHash_def _ t] False
    have ok: "index_ok nHash collide landmark" by simp
    from False have n: "nHash * 16 \<le> length zSrc" "0 < nHash" by (simp_all add: nHash_def)
    define hdr where "hdr = putInt (of_nat (length zOut)) @ [CHR 0x0A]"
    from encode_loop_Some[OF ok n(1) ls lo n(2), of sc 0 hdr] obtain base d where
      e: "encode_loop sc zSrc zOut nHash collide landmark 0 hdr = Some (base, d)" by auto
    from encode_loop_decodes[OF ok n ls32 lo32 e] obtain out where
      o: "base \<le> length zOut" "d = hdr @ out" "Decodes zSrc out (take base zOut)" by auto
    define tail where "tail = (if base < length zOut
        then putInt (of_nat (length zOut - base)) @ '':'' @ drop base zOut else [])"
    have "Decodes zSrc tail (drop base zOut)"
    proof (cases "base < length zOut")
      case True
      have "length (drop base zOut) < 2 ^ 32" using lo32 by simp
      from Decodes_literal[OF this, of zSrc] True show ?thesis by (simp add: tail_def)
    next
      case False
      with o(1) show ?thesis by (simp add: tail_def Decodes_Nil)
    qed
    from Decodes_append[OF o(3) this] have "Decodes zSrc (out @ tail) zOut" by simp
    from fin[OF this] have
      "delta_apply zSrc (hdr @ out @ tail @ putInt (checksum zOut) @ '';'') = Some (zOut, unat (checksum zOut))"
      by (simp add: hdr_def)
    moreover have "rbuDeltaCreate sc zSrc zOut = Some (hdr @ out @ tail @ putInt (checksum zOut) @ '';'')"
      using False t e o(2)
      by (simp add: rbuDeltaCreate_def Let_def nHash_def[symmetric] hdr_def[symmetric] tail_def)
    ultimately show ?thesis by simp
  qed
qed

lemma delta_round_trip_example:
  "length ''abcdefghijklmnopqrstuvwxyz0123456789'' < 2 ^ 30
   \<and> length ''XXabcdefghijklmnopqrstuvwxyz0123456789YY'' < 2 ^ 30
   \<and> rbuDeltaCreate True ''abcdefghijklmnopqrstuvwxyz0123456789''
         ''XXabcdefghijklmnopqrstuvwxyz0123456789YY''
       = Some (''d'' @ [CHR 0x0A] @ ''2:XX_@0,2:YY25Zg~5;'')
   \<and> delta_apply ''abcdefghijklmnopqrstuvwxyz0123456789''
         (''d'' @ [CHR 0x0A] @ ''2:XX_@0,2:YY25Zg~5;'')
       = Some (''XXabcdefghijklmnopqrstuvwxyz0123456789YY'',
               unat (checksum ''XXabcdefghijklmnopqrstuvwxyz0123456789YY''))"
proof -
  have e: "rbuDeltaCreate True ''abcdefghijklmnopqrstuvwxyz0123456789''
             ''XXabcdefghijklmnopqrstuvwxyz0123456789YY''
           = Some (''d'' @ [CHR 0x0A] @ ''2:XX_@0,2:YY25Zg~5;'')"
    by (simp add: encoder_eval cong: option.case_cong_weak prod.case_cong_weak)
  from delta_round_trip [of "''abcdefghijklmnopqrstuvwxyz0123456789''"
      "''XXabcdefghijklmnopqrstuvwxyz0123456789YY''" True]
  have "\<exists>zDelta. rbuDeltaCreate True ''abcdefghijklmnopqrstuvwxyz0123456789''
             ''XXabcdefghijklmnopqrstuvwxyz0123456789YY'' = Some zDelta
          \<and> delta_apply ''abcdefghijklmnopqrstuvwxyz0123456789'' zDelta
              = Some (''XXabcdefghijklmnopqrstuvwxyz0123456789YY'',
                      unat (checksum ''XXabcdefghijklmnopqrstuvwxyz0123456789YY''))"
    by simp
  then obtain zDelta where
    z: "rbuDeltaCreate True ''abcdefghijklmnopqrstuvwxyz0123456789''
             ''XXabcdefghijklmnopqrstuvwxyz0123456789YY'' = Some zDelta"
    and a: "delta_apply ''abcdefghijklmnopqrstuvwxyz0123456789'' zDelta
              = Some (''XXabcdefghijklmnopqrstuvwxyz0123456789YY'',
                      unat (checksum ''XXabcdefghijklmnopqrstuvwxyz0123456789YY''))"
    by (elim exE conjE)
  from z e have "zDelta = ''d'' @ [CHR 0x0A] @ ''2:XX_@0,2:YY25Zg~5;''" by (simp only: option.inject)
  with a e show ?thesis by (simp only: list.size) simp
qed

subsection \<open>At exactly \<open>2\<^sup>3\<^sup>0\<close> bytes the encoder does not return\<close>















section \<open>The control string of an RBU update row\<close>



lemma select_control:
  assumes "length new = nCol" "length old = nCol" "nPK \<le> nCol"
  shows "column (rbu_update_select is_op nPK b new old) nCol =
         SQLITE_TEXT ((if b = 0 then replicate nPK (CHR ''.'') else [])
                      @ map (\<lambda>(nv, ov). if is_op nv ov then CHR ''.'' else CHR ''x'')
                          (drop nPK (zip new old)))"
  using assms by (simp add: column_def rbu_update_select_def nth_append)




lemma rbudiff_columns_returns:
  assumes "\<forall>v \<in> set row. \<forall>z. v = SQLITE_BLOB z \<longrightarrow> length z < 2 ^ 30"
    and "b \<le> nPK" and "nCol \<le> length z + b"
  shows "\<exists>r. rbudiff_columns sc fmt_g row nCol nPK b i (vals, z) = Inr r"
  using assms
proof (induction sc fmt_g row nCol nPK b i "(vals, z)" arbitrary: vals z rule: rbudiff_columns.induct)
  case (1 sc fmt_g row nCol nPK b i vals z)
  show ?case
  proof (cases "i < nCol")
    case False
    then show ?thesis by (simp add: rbudiff_columns.simps[of sc fmt_g row nCol nPK b i])
  next
    case True
    note lt = this
    have blob: "length z' < 2 ^ 30" if "column row c = SQLITE_BLOB z'" for c z'
    proof -
      from that have "c < length row" "row ! c = SQLITE_BLOB z'"
        by (auto simp: column_def split: if_splits)
      then have "SQLITE_BLOB z' \<in> set row" using nth_mem[of c row] by simp
      with "1.prems"(1) show ?thesis by blast
    qed
    show ?thesis
    proof (cases "nPK \<le> i \<and> (\<exists>aFinal aSrc. column row i = SQLITE_BLOB aFinal
                     \<and> column row (nCol + 1 + i) = SQLITE_BLOB aSrc)")
      case False
      then have cd: "column_delta sc row nCol nPK i = Inr None"
        by (auto simp: column_delta_def split: sqlite3_value.splits)
      from "1.hyps"(1)[OF lt cd refl "1.prems"] obtain r where
        "rbudiff_columns sc fmt_g row nCol nPK b (i + 1)
           (vals @ [printQuoted fmt_g (column row i)], z) = Inr r" ..
      with lt cd show ?thesis
        by (simp add: rbudiff_columns.simps[of sc fmt_g row nCol nPK b i])
    next
      case True
      then obtain aFinal aSrc where ge: "nPK \<le> i"
        and cn: "column row i = SQLITE_BLOB aFinal"
        and co: "column row (nCol + 1 + i) = SQLITE_BLOB aSrc" by blast
      from rbuDeltaCreate_Some[OF blob[OF co] blob[OF cn], of sc] obtain aDelta where
        d: "rbuDeltaCreate sc aSrc aFinal = Some aDelta" ..
      show ?thesis
      proof (cases "length aDelta < length aFinal")
        case False
        with ge cn co d have cd: "column_delta sc row nCol nPK i = Inr None"
          by (simp add: column_delta_def)
        from "1.hyps"(1)[OF lt cd refl "1.prems"] obtain r where
          "rbudiff_columns sc fmt_g row nCol nPK b (i + 1)
             (vals @ [printQuoted fmt_g (column row i)], z) = Inr r" ..
        with lt cd show ?thesis
          by (simp add: rbudiff_columns.simps[of sc fmt_g row nCol nPK b i])
      next
        case True
        define lit where "lit = ''x'' @ [CHR 0x27] @ concat (map fmt_02x aDelta) @ [CHR 0x27]"
        from True ge cn co d have cd: "column_delta sc row nCol nPK i = Inr (Some lit)"
          by (simp add: column_delta_def lit_def)
        from ge lt "1.prems"(2,3) have ib: "\<not> (i < b \<or> length z \<le> i - b)" by auto
        have l: "nCol \<le> length (z[i - b := CHR ''f'']) + b" using "1.prems"(3) by simp
        from "1.hyps"(2)[OF lt cd refl ib "1.prems"(1,2) l] obtain r where
          "rbudiff_columns sc fmt_g row nCol nPK b (i + 1)
             (vals @ [lit], z[i - b := CHR ''f'']) = Inr r" ..
        with lt cd ib show ?thesis
          by (simp add: rbudiff_columns.simps[of sc fmt_g row nCol nPK b i])
      qed
    qed
  qed
qed

lemma rbu_update_select_set:
  "set (rbu_update_select is_op nPK b new old) \<subseteq> set new \<union> set old \<union> {SQLITE_NULL}
     \<union> {v. \<exists>t. v = SQLITE_TEXT t}"
proof -
  have "set (drop nPK (zip new old)) \<subseteq> set new \<times> set old"
    using set_drop_subset[of nPK "zip new old"] set_zip_leftD set_zip_rightD by fastforce
  moreover have "set (take nPK new) \<subseteq> set new" by (rule set_take_subset)
  ultimately show ?thesis
    by (auto simp: rbu_update_select_def split: if_splits)
qed

lemma rbudiff_update_row_returns:
  assumes ln: "length new = nCol" and lo: "length old = nCol" and pk: "nPK \<le> nCol"
    and rid: "bOtaRowid = 0 \<or> (bOtaRowid = 1 \<and> nPK = 1)"
    and bn: "\<forall>v \<in> set new. \<forall>z. v = SQLITE_BLOB z \<longrightarrow> length z < 2 ^ 30"
    and bo: "\<forall>v \<in> set old. \<forall>z. v = SQLITE_BLOB z \<longrightarrow> length z < 2 ^ 30"
  shows "\<exists>r. rbudiff_update_row sc fmt_g (rbu_update_select is_op nPK bOtaRowid new old)
                nCol nPK bOtaRowid = Inr r"
proof -
  define row where "row = rbu_update_select is_op nPK bOtaRowid new old"
  define ctl where "ctl = (if bOtaRowid = 0 then replicate nPK (CHR ''.'') else [])
                      @ map (\<lambda>(nv, ov). if is_op nv ov then CHR ''.'' else CHR ''x'')
                          (drop nPK (zip new old))"
  have c: "column row nCol = SQLITE_TEXT ctl"
    unfolding row_def ctl_def by (rule select_control[OF ln lo pk])
  have lc: "length ctl = (if bOtaRowid = 0 then nPK else 0) + (nCol - nPK)"
    using ln lo by (simp add: ctl_def)
  have b: "\<forall>v \<in> set row. \<forall>z. v = SQLITE_BLOB z \<longrightarrow> length z < 2 ^ 30"
    using rbu_update_select_set[of is_op nPK bOtaRowid new old] bn bo
    unfolding row_def by blast
  from rid have b1: "bOtaRowid \<le> nPK" by auto
  from rid pk lc have b2: "nCol \<le> length ctl + bOtaRowid" by auto
  from rbudiff_columns_returns[OF b b1 b2, of sc fmt_g 0 "[]"] c show ?thesis
    by (simp add: rbudiff_update_row_def row_def[symmetric] column_text_def)
qed

lemma rbudiff_update_row_example:
  "rbudiff_update_row True (\<lambda>r :: unit. ''0.0'')
     (rbu_update_select (=) 1 0
        [SQLITE_INTEGER 7, SQLITE_BLOB ''XXabcdefghijklmnopqrstuvwxyz0123456789YY'', SQLITE_TEXT ''a'']
        [SQLITE_INTEGER 7, SQLITE_BLOB ''abcdefghijklmnopqrstuvwxyz0123456789'', SQLITE_TEXT ''a''])
     3 1 0
   = Inr ([''7'', ''x'' @ [CHR 0x27] @ ''640a323a58585f40302c323a595932355a677e353b'' @ [CHR 0x27], ''NULL''],
          ''.f.'')"
proof -
  have e: "rbuDeltaCreate True ''abcdefghijklmnopqrstuvwxyz0123456789''
             ''XXabcdefghijklmnopqrstuvwxyz0123456789YY''
           = Some (''d'' @ [CHR 0x0A] @ ''2:XX_@0,2:YY25Zg~5;'')"
    by (simp add: encoder_eval cong: option.case_cong_weak prod.case_cong_weak)
  show ?thesis
    by (simp add: rbudiff_update_row_def rbu_update_select_def column_text_def column_def
        rbudiff_columns.simps column_delta_def e printQuoted_def fmt_lld_def fmt_u.simps
        fmt_02x_def
        cong: sum.case_cong_weak option.case_cong_weak sqlite3_value.case_cong_weak)
qed



lemma rbudiff_row_example:
  "rbudiff_row True (\<lambda>r :: unit. ''0.0'') (''INSERT INTO '' @ [CHR 0x27] @ ''data_t'' @ [CHR 0x27]
        @ '' (a, b, c, rbu_control) VALUES('')
     (rbu_update_select (=) 1 0
        [SQLITE_INTEGER 7, SQLITE_BLOB ''XXabcdefghijklmnopqrstuvwxyz0123456789YY'', SQLITE_TEXT ''a'']
        [SQLITE_INTEGER 7, SQLITE_BLOB ''abcdefghijklmnopqrstuvwxyz0123456789'', SQLITE_TEXT ''a''])
     3 1 0
   = Inr (''INSERT INTO '' @ [CHR 0x27] @ ''data_t'' @ [CHR 0x27] @ '' (a, b, c, rbu_control) VALUES(7, x''
          @ [CHR 0x27] @ ''640a323a58585f40302c323a595932355a677e353b'' @ [CHR 0x27] @ '', NULL, ''
          @ [CHR 0x27] @ ''.f.'' @ [CHR 0x27] @ '');'' @ [CHR 0x0A])"
proof -
  have c: "column (rbu_update_select (=) 1 0
        [SQLITE_INTEGER 7, SQLITE_BLOB ''XXabcdefghijklmnopqrstuvwxyz0123456789YY'', SQLITE_TEXT ''a'']
        ([SQLITE_INTEGER 7, SQLITE_BLOB ''abcdefghijklmnopqrstuvwxyz0123456789'', SQLITE_TEXT ''a''] :: unit sqlite3_value list)) 3 = SQLITE_TEXT ''.x.''"
    by (simp add: rbu_update_select_def column_def)
  show ?thesis
    unfolding rbudiff_row_def c rbudiff_update_row_example by simp
qed

text \<open>
  With an implicit rowid as the key (\<^verbatim>\<open>bOtaRowid = 1\<close>, \<^verbatim>\<open>azCol = {rowid, b}\<close>) the control
  string has no character for the key, and position 0 belongs to column 1.
\<close>

lemma rbudiff_update_row_rowid_example:
  "rbudiff_update_row True (\<lambda>r :: unit. ''0.0'')
     (rbu_update_select (=) 1 1
        [SQLITE_INTEGER 5, SQLITE_BLOB ''XXabcdefghijklmnopqrstuvwxyz0123456789YY'']
        [SQLITE_INTEGER 5, SQLITE_BLOB ''abcdefghijklmnopqrstuvwxyz0123456789''])
     2 1 1
   = Inr ([''5'', ''x'' @ [CHR 0x27] @ ''640a323a58585f40302c323a595932355a677e353b'' @ [CHR 0x27]],
          ''f'')"
proof -
  have e: "rbuDeltaCreate True ''abcdefghijklmnopqrstuvwxyz0123456789''
             ''XXabcdefghijklmnopqrstuvwxyz0123456789YY''
           = Some (''d'' @ [CHR 0x0A] @ ''2:XX_@0,2:YY25Zg~5;'')"
    by (simp add: encoder_eval cong: option.case_cong_weak prod.case_cong_weak)
  show ?thesis
    by (simp add: rbudiff_update_row_def rbu_update_select_def column_text_def column_def
        rbudiff_columns.simps column_delta_def e printQuoted_def fmt_lld_def fmt_u.simps
        fmt_02x_def
        cong: sum.case_cong_weak option.case_cong_weak sqlite3_value.case_cong_weak)
qed

end
